theory Spec2Isabelle
  imports Complex_Main
begin

section \<open>Numbers\<close>

text \<open>
  The engine computes with JavaScript Number values, which are binary64 floating-point
  numbers. Most functions are modelled over \<^typ>\<open>real\<close> with exact arithmetic: the
  statements about them do not turn on the last binary place. Where a statement does
  turn on rounding (the range of \<open>normalizeAngle\<close>, the strictness of
  \<open>dateToJulianDay\<close>), the function is modelled a second time with every operation
  rounded to binary64; those definitions carry the suffix \<open>64\<close>. The values NaN and
  \<open>\<plusminus>Infinity\<close> are not modelled. Integer-valued inputs (calendar fields, body codes,
  house numbers) are \<^typ>\<open>int\<close> or \<^typ>\<open>nat\<close>.

  The remainder operator \<open>%\<close> of JavaScript truncates towards zero, so the result has the
  sign of the dividend. The divisor is a positive constant (360, 30 or 24) at every use
  in the engine.
\<close>

definition js_rem :: "real \<Rightarrow> real \<Rightarrow> real" where
  "js_rem a b = sgn a * (\<bar>a\<bar> - \<bar>b\<bar> * of_int \<lfloor>\<bar>a\<bar> / \<bar>b\<bar>\<rfloor>)"

text \<open>
  \<open>Math.atan2(y, x)\<close>, by the cases of the language specification (without signed zeros).
\<close>

definition atan2 :: "real \<Rightarrow> real \<Rightarrow> real" where
  "atan2 y x =
     (if x > 0 then arctan (y / x)
      else if x < 0 then (if y \<ge> 0 then arctan (y / x) + pi else arctan (y / x) - pi)
      else if y > 0 then pi / 2
      else if y < 0 then - (pi / 2)
      else 0)"

section \<open>ephemeris.js: constants\<close>

definition SUN :: int where "SUN = 0"
definition MOON :: int where "MOON = 1"
definition MERCURY :: int where "MERCURY = 2"
definition VENUS :: int where "VENUS = 3"
definition MARS :: int where "MARS = 4"
definition JUPITER :: int where "JUPITER = 5"
definition SATURN :: int where "SATURN = 6"
definition URANUS :: int where "URANUS = 7"
definition NEPTUNE :: int where "NEPTUNE = 8"
definition PLUTO :: int where "PLUTO = 9"
definition TRUE_NODE :: int where "TRUE_NODE = 11"
definition CHIRON :: int where "CHIRON = 15"

text \<open>The codes of \<open>PLANETS\<close>, in the order of the object's entries.\<close>

definition PLANETS :: "(string \<times> int) list" where
  "PLANETS =
     [(''SUN'', SUN), (''MOON'', MOON), (''MERCURY'', MERCURY), (''VENUS'', VENUS),
      (''MARS'', MARS), (''JUPITER'', JUPITER), (''SATURN'', SATURN), (''URANUS'', URANUS),
      (''NEPTUNE'', NEPTUNE), (''PLUTO'', PLUTO), (''TRUE_NODE'', TRUE_NODE),
      (''CHIRON'', CHIRON)]"

definition SIGNS :: "string list" where
  "SIGNS =
     [''Aries'', ''Taurus'', ''Gemini'', ''Cancer'',
      ''Leo'', ''Virgo'', ''Libra'', ''Scorpio'',
      ''Sagittarius'', ''Capricorn'', ''Aquarius'', ''Pisces'']"

text \<open>
  An entry of \<open>ASPECTS\<close>. The field \<open>symbol\<close> holds the code point of the one-character
  string of the source.
\<close>

record aspect_config =
  angle :: real
  orb :: real
  symbol :: nat
  nature :: string

definition ASPECTS :: "(string \<times> aspect_config) list" where
  "ASPECTS =
     [(''conjunction'', \<lparr>angle = 0, orb = 8, symbol = 0x260C, nature = ''neutral''\<rparr>),
      (''sextile'', \<lparr>angle = 60, orb = 6, symbol = 0x26B9, nature = ''harmonious''\<rparr>),
      (''square'', \<lparr>angle = 90, orb = 8, symbol = 0x25A1, nature = ''challenging''\<rparr>),
      (''trine'', \<lparr>angle = 120, orb = 8, symbol = 0x25B3, nature = ''harmonious''\<rparr>),
      (''opposition'', \<lparr>angle = 180, orb = 8, symbol = 0x260D, nature = ''challenging''\<rparr>)]"

definition DEG_TO_RAD :: real where
  "DEG_TO_RAD = pi / 180"

definition RAD_TO_DEG :: real where
  "RAD_TO_DEG = 180 / pi"

definition J2000 :: real where
  "J2000 = 2451545.0"

section \<open>ephemeris.js: time and angles\<close>

text \<open>
  \<open>dateToJulianDay\<close> takes numbers; the callers pass whole years, months and days. The
  default \<open>hour = 0\<close> of the source is passed explicitly here. This definition is the
  formula in exact arithmetic, the value that the code approximates; \<open>dateToJulianDay64\<close>
  below is the code with its roundings. Likewise \<open>normalizeAngle\<close> is the exact
  normalization and \<open>normalizeAngle64\<close> the code with its rounded sum.
\<close>

definition dateToJulianDay :: "real \<Rightarrow> real \<Rightarrow> real \<Rightarrow> real \<Rightarrow> real" where
  "dateToJulianDay year month day hour =
     (let (year, month) = (if month \<le> 2 then (year - 1, month + 12) else (year, month));
          A = of_int \<lfloor>year / 100\<rfloor>;
          B = 2 - A + of_int \<lfloor>A / 4\<rfloor>;
          JD = of_int \<lfloor>365.25 * (year + 4716)\<rfloor> +
               of_int \<lfloor>30.6001 * (month + 1)\<rfloor> +
               day + hour / 24 + B - 1524.5
      in JD)"

definition normalizeAngle :: "real \<Rightarrow> real" where
  "normalizeAngle a =
     (let a = js_rem a 360
      in if a < 0 then a + 360 else a)"

text \<open>
  The result of \<open>getZodiacPosition\<close>. The display string \<open>formatted\<close> is left out; no
  computation of the engine reads it.
\<close>

record zodiac_position =
  sign :: string
  signIndex :: int
  degree :: int
  minutes :: int
  longitude :: real

definition getZodiacPosition :: "real \<Rightarrow> zodiac_position" where
  "getZodiacPosition long =
     (let normalizedLong = js_rem (js_rem long 360 + 360) 360;
          signIndex = \<lfloor>normalizedLong / 30\<rfloor>;
          degreeInSign = js_rem normalizedLong 30;
          degree = \<lfloor>degreeInSign\<rfloor>;
          minutes = \<lfloor>(degreeInSign - of_int degree) * 60\<rfloor>
      in \<lparr>sign = SIGNS ! nat signIndex, signIndex = signIndex, degree = degree,
          minutes = minutes, zodiac_position.longitude = normalizedLong\<rparr>)"


section \<open>Double precision\<close>

text \<open>
  A Number of the source is a binary64 value: every sum, difference, product and quotient
  is the exact result rounded to the nearest binary64 value, ties to the even significand.
  \<open>fl\<close> is that rounding. The values are the multiples of a quantum, a power of two that
  depends on the binade of the number: 52 binary places below its leading bit, and never
  below \<open>2 powi (-1074)\<close>. Results beyond the largest finite value are Infinity in the
  source and are not modelled; they arise in none of the statements below.

  The remainder \<open>%\<close> of two binary64 values is exact, and so is \<open>Math.floor\<close>.
\<close>

definition binade :: "real \<Rightarrow> int" where
  "binade x = \<lfloor>log 2 \<bar>x\<bar>\<rfloor>"

definition quantum :: "real \<Rightarrow> real" where
  "quantum x = 2 powi (max (binade x - 52) (- 1074))"

definition roundHalfEven :: "real \<Rightarrow> int" where
  "roundHalfEven y =
     (let n = \<lfloor>y\<rfloor>;
          r = y - of_int n
      in if r < 1 / 2 then n
         else if r > 1 / 2 then n + 1
         else if even n then n else n + 1)"

definition fl :: "real \<Rightarrow> real" where
  "fl x = (if x = 0 then 0 else of_int (roundHalfEven (x / quantum x)) * quantum x)"

text \<open>
  \<open>normalizeAngle\<close> on binary64 values: the remainder is exact, the sum
  \<open>angle += 360\<close> is rounded.
\<close>

definition normalizeAngle64 :: "real \<Rightarrow> real" where
  "normalizeAngle64 a =
     (let a = js_rem a 360
      in if a < 0 then fl (a + 360) else a)"

text \<open>
  \<open>dateToJulianDay\<close> on binary64 values, every operation rounded, the sum taken from
  left to right as the source writes it. The literals 365.25 and 1524.5 are binary64
  values; 30.6001 is not, and the source works with the binary64 value nearest to it.
\<close>

definition dateToJulianDay64 :: "real \<Rightarrow> real \<Rightarrow> real \<Rightarrow> real \<Rightarrow> real" where
  "dateToJulianDay64 year month day hour =
     (let (year, month) =
            (if month \<le> 2 then (fl (year - 1), fl (month + 12)) else (year, month));
          A = of_int \<lfloor>fl (year / 100)\<rfloor>;
          B = fl (fl (2 - A) + of_int \<lfloor>fl (A / 4)\<rfloor>);
          JD = fl (fl (fl (fl (fl (of_int \<lfloor>fl (365.25 * fl (year + 4716))\<rfloor> +
                                   of_int \<lfloor>fl (fl 30.6001 * fl (month + 1))\<rfloor>) +
                               day) +
                           fl (hour / 24)) +
                       B) -
                   1524.5)
      in JD)"

section \<open>ephemeris.js: positions\<close>

text \<open>
  What a JavaScript call can raise. No statement of the position functions raises
  anything; \<open>getHousePosition\<close> raises a \<open>TypeError\<close> when it reads the field \<open>cusp\<close> of a
  missing entry.
\<close>

datatype js_error = TypeError

text \<open>The object returned by the Sun, Moon and planet calculations.\<close>

record ecliptic_position =
  longitude :: real
  latitude :: real
  distance :: real
  longitudeSpeed :: real
  isRetrograde :: bool

definition calculateSunPosition :: "real \<Rightarrow> ecliptic_position" where
  "calculateSunPosition JD =
     (let T = (JD - J2000) / 36525;
          L0 = 280.4664567 + 360007.6982779 * T + 0.03032028 * T * T;
          L0 = normalizeAngle L0;
          M = 357.5291092 + 35999.0502909 * T - 0.0001536 * T * T;
          M = normalizeAngle M;
          Mrad = M * DEG_TO_RAD;
          C = (1.9146 - 0.004817 * T - 0.000014 * T * T) * sin Mrad +
              (0.019993 - 0.000101 * T) * sin (2 * Mrad) +
              0.00029 * sin (3 * Mrad);
          longitude = L0 + C;
          longitude = normalizeAngle longitude
      in \<lparr>ecliptic_position.longitude = longitude,
          ecliptic_position.latitude = 0,
          ecliptic_position.distance = 1.00014 - 0.01671 * cos Mrad - 0.00014 * cos (2 * Mrad),
          ecliptic_position.longitudeSpeed = 360 / 365.25,
          ecliptic_position.isRetrograde = False\<rparr>)"

definition calculateMoonPosition :: "real \<Rightarrow> ecliptic_position" where
  "calculateMoonPosition JD =
     (let T = (JD - J2000) / 36525;
          Lm = 218.3164591 + 481267.88134236 * T - 0.0015786 * T * T;
          Lm = normalizeAngle Lm;
          D = 297.8502042 + 445267.1115168 * T - 0.0016300 * T * T;
          D = normalizeAngle D * DEG_TO_RAD;
          M = 357.5291092 + 35999.0502909 * T;
          M = normalizeAngle M * DEG_TO_RAD;
          Mm = 134.9634114 + 477198.8676313 * T + 0.0089970 * T * T;
          Mm = normalizeAngle Mm * DEG_TO_RAD;
          F = 93.2720993 + 483202.0175273 * T - 0.0034029 * T * T;
          F = normalizeAngle F * DEG_TO_RAD;
          longitude = Lm +
            6.29 * sin Mm +
            - 1.27 * sin (Mm - 2 * D) +
            0.66 * sin (2 * D) +
            0.21 * sin (2 * Mm) +
            - 0.19 * sin M +
            - 0.11 * sin (2 * F);
          longitude = normalizeAngle longitude;
          latitude = 5.13 * sin F +
            0.28 * sin (Mm + F) +
            - 0.28 * sin (F - Mm) +
            - 0.17 * sin (F - 2 * D)
      in \<lparr>ecliptic_position.longitude = longitude,
          ecliptic_position.latitude = latitude,
          ecliptic_position.distance = 385000,
          ecliptic_position.longitudeSpeed = 360 / 27.32,
          ecliptic_position.isRetrograde = False\<rparr>)"

text \<open>
  An entry of the table \<open>elements\<close> of \<open>calculateOuterPlanet\<close>; the fields \<open>a\<close>, \<open>e\<close>, \<open>i\<close>,
  \<open>L\<close>, \<open>w\<close>, \<open>O\<close> and their rates carry the prefix \<open>el_\<close> here.
\<close>

record orbital_elements =
  el_a :: real
  el_e :: real
  el_i :: real
  el_L :: real
  el_w :: real
  el_O :: real
  el_aR :: real
  el_eR :: real
  el_iR :: real
  el_LR :: real
  el_wR :: real
  el_OR :: real

text \<open>The table is built at every call; the entry of the lunar node depends on \<open>T\<close>.\<close>

definition elements :: "real \<Rightarrow> int \<rightharpoonup> orbital_elements" where
  "elements T = map_of
     [(MERCURY, \<lparr>el_a = 0.387, el_e = 0.2056, el_i = 7.00, el_L = 252.25, el_w = 77.46,
         el_O = 48.33, el_aR = 0, el_eR = 0.00002, el_iR = - 0.003, el_LR = 149472.67,
         el_wR = 0.16, el_OR = - 0.13\<rparr>),
      (VENUS, \<lparr>el_a = 0.723, el_e = 0.0068, el_i = 3.39, el_L = 181.98, el_w = 131.53,
         el_O = 76.68, el_aR = 0, el_eR = - 0.00005, el_iR = - 0.008, el_LR = 58517.82,
         el_wR = 0.004, el_OR = - 0.28\<rparr>),
      (MARS, \<lparr>el_a = 1.524, el_e = 0.0934, el_i = 1.85, el_L = 355.43, el_w = 336.04,
         el_O = 49.56, el_aR = 0, el_eR = 0.00009, el_iR = - 0.006, el_LR = 19140.30,
         el_wR = 0.45, el_OR = - 0.29\<rparr>),
      (JUPITER, \<lparr>el_a = 5.203, el_e = 0.0484, el_i = 1.31, el_L = 34.33, el_w = 14.33,
         el_O = 100.46, el_aR = 0, el_eR = 0.00016, el_iR = - 0.019, el_LR = 3034.90,
         el_wR = 0.22, el_OR = 0.18\<rparr>),
      (SATURN, \<lparr>el_a = 9.537, el_e = 0.0542, el_i = 2.49, el_L = 50.08, el_w = 93.06,
         el_O = 113.64, el_aR = 0, el_eR = - 0.00004, el_iR = 0.004, el_LR = 1222.11,
         el_wR = 0.54, el_OR = - 0.25\<rparr>),
      (URANUS, \<lparr>el_a = 19.19, el_e = 0.0472, el_i = 0.77, el_L = 314.20, el_w = 173.00,
         el_O = 74.01, el_aR = 0, el_eR = - 0.00003, el_iR = - 0.001, el_LR = 428.49,
         el_wR = 0.09, el_OR = 0.05\<rparr>),
      (NEPTUNE, \<lparr>el_a = 30.07, el_e = 0.0086, el_i = 1.77, el_L = 304.22, el_w = 48.12,
         el_O = 131.79, el_aR = 0, el_eR = 0.00001, el_iR = 0.003, el_LR = 218.46,
         el_wR = 0.01, el_OR = - 0.01\<rparr>),
      (PLUTO, \<lparr>el_a = 39.48, el_e = 0.2488, el_i = 17.14, el_L = 238.96, el_w = 224.09,
         el_O = 110.30, el_aR = 0, el_eR = 0.00006, el_iR = 0.004, el_LR = 145.18,
         el_wR = - 0.01, el_OR = - 0.03\<rparr>),
      (TRUE_NODE, \<lparr>el_a = 1, el_e = 0, el_i = 0, el_L = 125.08 - 19.34 * T, el_w = 0,
         el_O = 0, el_aR = 0, el_eR = 0, el_iR = 0, el_LR = - 19.34 * 36525,
         el_wR = 0, el_OR = 0\<rparr>),
      (CHIRON, \<lparr>el_a = 13.65, el_e = 0.379, el_i = 6.93, el_L = 209.41, el_w = 339.26,
         el_O = 209.26, el_aR = 0, el_eR = 0, el_iR = 0, el_LR = 72.22,
         el_wR = 0, el_OR = 0\<rparr>)]"

text \<open>
  \<open>elements[planetCode] || elements[PLANETS.MARS]\<close>: a code with no entry takes the entry
  of Mars. The function has no \<open>throw\<close>; every call returns.
\<close>

definition calculateOuterPlanet :: "real \<Rightarrow> int \<Rightarrow> js_error + ecliptic_position" where
  "calculateOuterPlanet JD planetCode =
     (let T = (JD - J2000) / 36525;
          el = (case elements T planetCode of Some el \<Rightarrow> el | None \<Rightarrow> the (elements T MARS));
          L = normalizeAngle (el_L el + el_LR el * T);
          w = normalizeAngle (el_w el + el_wR el * T);
          e = el_e el + el_eR el * T;
          M = normalizeAngle (L - w);
          Mrad = M * DEG_TO_RAD;
          C = (2 * e - e * e * e / 4) * sin Mrad +
              (5 / 4 * e * e) * sin (2 * Mrad) +
              (13 / 12 * e * e * e) * sin (3 * Mrad);
          Cdeg = C * RAD_TO_DEG;
          v = M + Cdeg;
          longitude = normalizeAngle (v + w)
      in if planetCode = TRUE_NODE then
           Inr \<lparr>ecliptic_position.longitude = normalizeAngle (el_L el),
                ecliptic_position.latitude = 0,
                ecliptic_position.distance = 1,
                ecliptic_position.longitudeSpeed = - 0.053,
                ecliptic_position.isRetrograde = True\<rparr>
         else
           (let dailyMotion = 360 / (el_a el * el_a el * sqrt (el_a el) * 365.25);
                sunPos = calculateSunPosition JD;
                elongation = normalizeAngle (longitude - ecliptic_position.longitude sunPos);
                isRetrograde = (planetCode > MARS \<and> (elongation > 120 \<and> elongation < 240))
            in Inr \<lparr>ecliptic_position.longitude = longitude,
                    ecliptic_position.latitude =
                      el_i el * sin ((longitude - el_O el) * DEG_TO_RAD),
                    ecliptic_position.distance = el_a el * (1 - e * cos Mrad),
                    ecliptic_position.longitudeSpeed =
                      dailyMotion * (if isRetrograde then - 1 else 1),
                    ecliptic_position.isRetrograde = isRetrograde\<rparr>))"

text \<open>
  The object \<open>{...result, ...position}\<close>: the fields of the zodiac decomposition, whose
  \<open>longitude\<close> replaces the one of \<open>result\<close>, and the remaining fields of \<open>result\<close>.
\<close>

record planet_position = zodiac_position +
  latitude :: real
  distance :: real
  longitudeSpeed :: real
  isRetrograde :: bool

definition calculatePlanetPosition :: "real \<Rightarrow> int \<Rightarrow> js_error + planet_position" where
  "calculatePlanetPosition JD planetCode =
     (case (if planetCode = SUN then Inr (calculateSunPosition JD)
            else if planetCode = MOON then Inr (calculateMoonPosition JD)
            else calculateOuterPlanet JD planetCode) of
        Inl err \<Rightarrow> Inl err
      | Inr result \<Rightarrow>
          (let position = getZodiacPosition (ecliptic_position.longitude result)
           in Inr \<lparr>sign = sign position, signIndex = signIndex position,
                   degree = degree position, minutes = minutes position,
                   zodiac_position.longitude = zodiac_position.longitude position,
                   planet_position.latitude = ecliptic_position.latitude result,
                   planet_position.distance = ecliptic_position.distance result,
                   planet_position.longitudeSpeed = ecliptic_position.longitudeSpeed result,
                   planet_position.isRetrograde = ecliptic_position.isRetrograde result\<rparr>))"

section \<open>ephemeris.js: houses\<close>

text \<open>
  A cusp \<open>{cusp, ...getZodiacPosition(cusp)}\<close>, and the object \<open>calculateHouses\<close> returns.
  Its \<open>cusps\<close> object is a map from the house number. The objects \<open>ascendant\<close> and
  \<open>mc\<close> are zodiac decompositions, whose \<open>longitude\<close> replaces the one written before
  the spread. The parameter \<open>houseSystem\<close> is not read by the source and is left out.
  At a geographic latitude of \<open>\<plusminus>90\<close> degrees the tangent of the source is very large where
  \<^const>\<open>tan\<close> is \<open>0\<close>; the cusps are at 30 degree steps from the Ascendant in both.
\<close>

record house_cusp = zodiac_position +
  cusp :: real

record house_frame =
  cusps :: "nat \<rightharpoonup> house_cusp"
  ascendant :: zodiac_position
  mc :: zodiac_position
  armc :: real
  vertex :: "real option"

definition makeCusp :: "real \<Rightarrow> house_cusp" where
  "makeCusp c =
     (let z = getZodiacPosition c
      in \<lparr>sign = sign z, signIndex = signIndex z, degree = degree z, minutes = minutes z,
          zodiac_position.longitude = zodiac_position.longitude z, cusp = c\<rparr>)"

definition calculateHouses :: "real \<Rightarrow> real \<Rightarrow> real \<Rightarrow> house_frame" where
  "calculateHouses JD geoLatitude geoLongitude =
     (let T = (JD - J2000) / 36525;
          GMST = 280.46061837 + 360.98564736629 * (JD - J2000) +
                 0.000387933 * T * T - T * T * T / 38710000;
          LST = normalizeAngle (GMST + geoLongitude);
          latRad = geoLatitude * DEG_TO_RAD;
          obliquity = 23.439 - 0.00013 * T;
          oblRad = obliquity * DEG_TO_RAD;
          lstRad = LST * DEG_TO_RAD;
          ascendant = atan2 (cos lstRad)
                        (- (sin lstRad * cos oblRad + tan latRad * sin oblRad)) * RAD_TO_DEG;
          ascendant = normalizeAngle ascendant;
          mc = atan2 (sin lstRad) (cos lstRad * cos oblRad) * RAD_TO_DEG;
          mc = normalizeAngle mc;
          cusps = fold (\<lambda>i cusps.
                          (let cusp = normalizeAngle (ascendant + (real i - 1) * 30)
                           in cusps(i \<mapsto> makeCusp cusp)))
                    [1..<13] Map.empty
      in \<lparr>cusps = cusps,
          ascendant = getZodiacPosition ascendant,
          mc = getZodiacPosition mc,
          armc = LST,
          vertex = None\<rparr>)"

text \<open>
  The first loop of \<open>getHousePosition\<close> pushes \<open>houseCusps[i].cusp\<close> for \<open>i\<close> from 1 to 12,
  and raises a \<open>TypeError\<close> at a missing entry.
\<close>

fun pushCusps :: "(nat \<rightharpoonup> house_cusp) \<Rightarrow> nat list \<Rightarrow> js_error + real list" where
  "pushCusps houseCusps [] = Inr []"
| "pushCusps houseCusps (i # rest) =
     (case houseCusps i of
        None \<Rightarrow> Inl TypeError
      | Some c \<Rightarrow>
          (case pushCusps houseCusps rest of
             Inl err \<Rightarrow> Inl err
           | Inr cuspsArray \<Rightarrow> Inr (cusp c # cuspsArray)))"

text \<open>
  The second loop, from index \<open>i\<close>: the house of the first interval that holds the
  longitude, or \<open>None\<close> when the loop ends with no \<open>return\<close>.
\<close>

function houseLoop :: "real \<Rightarrow> real list \<Rightarrow> nat \<Rightarrow> nat option" where
  "houseLoop planetLongitude cuspsArray i =
     (if i < 12 then
        (let nextIndex = (i + 1) mod 12;
             start = cuspsArray ! i;
             end = cuspsArray ! nextIndex
         in if end < start then
              (if planetLongitude \<ge> start \<or> planetLongitude < end then Some (i + 1)
               else houseLoop planetLongitude cuspsArray (i + 1))
            else
              (if planetLongitude \<ge> start \<and> planetLongitude < end then Some (i + 1)
               else houseLoop planetLongitude cuspsArray (i + 1)))
      else None)"
  by pat_completeness auto
termination
  by (relation "measure (\<lambda>(p, cs, i). 12 - i)") auto

definition getHousePosition :: "real \<Rightarrow> (nat \<rightharpoonup> house_cusp) \<Rightarrow> js_error + nat" where
  "getHousePosition planetLongitude houseCusps =
     (case pushCusps houseCusps [1..<13] of
        Inl err \<Rightarrow> Inl err
      | Inr cuspsArray \<Rightarrow>
          (case houseLoop planetLongitude cuspsArray 0 of
             Some house \<Rightarrow> Inr house
           | None \<Rightarrow> Inr 1))"

text \<open>
  The half-open interval of the circle from \<open>start\<close> to \<open>end\<close>, which wraps at 360 degrees
  when \<open>end\<close> is below \<open>start\<close>.
\<close>

definition inWrapped :: "real \<Rightarrow> real \<Rightarrow> real \<Rightarrow> bool" where
  "inWrapped x start end =
     (if end < start then start \<le> x \<or> x < end else start \<le> x \<and> x < end)"

text \<open>The cusp longitude of house \<open>i\<close> in a \<open>cusps\<close> object.\<close>

definition cuspOf :: "(nat \<rightharpoonup> house_cusp) \<Rightarrow> nat \<Rightarrow> real" where
  "cuspOf houseCusps i = cusp (the (houseCusps i))"

section \<open>ephemeris.js: aspects\<close>

text \<open>
  The object \<open>calculateAspect\<close> returns: the entry of the table, with \<open>orb\<close> the actual
  deviation, and the fields \<open>name\<close> and \<open>exact\<close>. \<open>None\<close> is \<open>null\<close>.
\<close>

record aspect = aspect_config +
  name :: string
  exact :: bool

fun aspectLoop :: "real \<Rightarrow> (string \<times> aspect_config) list \<Rightarrow> aspect option" where
  "aspectLoop diff [] = None"
| "aspectLoop diff ((key, config) # rest) =
     (let orb = \<bar>diff - angle config\<bar>
      in if orb \<le> aspect_config.orb config then
           Some \<lparr>angle = angle config, orb = orb, symbol = symbol config,
                 nature = nature config, name = key, exact = (orb < 1)\<rparr>
         else aspectLoop diff rest)"

definition calculateAspect :: "real \<Rightarrow> real \<Rightarrow> aspect option" where
  "calculateAspect long1 long2 =
     (let diff = \<bar>long1 - long2\<bar>;
          diff = (if diff > 180 then 360 - diff else diff)
      in aspectLoop diff ASPECTS)"

text \<open>The folded angular separation that \<open>calculateAspect\<close> compares with the table.\<close>

definition separation :: "real \<Rightarrow> real \<Rightarrow> real" where
  "separation long1 long2 =
     (let diff = \<bar>long1 - long2\<bar> in if diff > 180 then 360 - diff else diff)"


section \<open>birthChart.js: local time to UTC\<close>

text \<open>
  \<open>getDaysInMonth(month, year)\<close> is \<open>new Date(year, month, 0).getDate()\<close>. By the language
  specification the constructor reads a year from 0 to 99 as 1900 plus that year, carries
  the zero-based month into the year (\<open>MakeDay\<close>), and gives an invalid date, whose
  \<open>getDate()\<close> is NaN, when the day number is more than \<open>10\<^sup>8\<close> days away from
  1 January 1970 (\<open>TimeClip\<close>, with the host's zone at UTC). \<open>None\<close> is that NaN.
  Day 0 of a month is the last day of the month before it, so its day of the month is
  that month's length.
\<close>

definition InLeapYear :: "int \<Rightarrow> bool" where
  "InLeapYear y = (y mod 4 = 0 \<and> (y mod 100 \<noteq> 0 \<or> y mod 400 = 0))"


definition monthDays :: "int \<Rightarrow> int list" where
  "monthDays y = [31, if InLeapYear y then 29 else 28, 31, 30, 31, 30, 31, 31, 30, 31, 30, 31]"



text \<open>
  The fields of \<open>birthData\<close> that the chart reads. The service fills the calendar fields
  with \<open>parseInt\<close> and the zone with \<open>parseFloat\<close>.
\<close>

record birth_data =
  year :: int
  month :: int
  day :: int
  hour :: int
  minute :: int
  latitude :: real
  longitude :: real
  timezone :: real



section \<open>Civil instants\<close>

text \<open>
  A date of the proleptic Gregorian calendar: a month from 1 to 12 and a day from 1 to the
  length of the month in that year. An instant is a date and an hour of the day; instants
  are ordered by year, then month, then day, then hour.
\<close>

definition validDate :: "int \<Rightarrow> int \<Rightarrow> int \<Rightarrow> bool" where
  "validDate y m d = (1 \<le> m \<and> m \<le> 12 \<and> 1 \<le> d \<and> d \<le> monthDays y ! nat (m - 1))"

definition civilBefore :: "int \<times> int \<times> int \<times> real \<Rightarrow> int \<times> int \<times> int \<times> real \<Rightarrow> bool" where
  "civilBefore t1 t2 =
     (case (t1, t2) of
        ((y1, m1, d1, h1), (y2, m2, d2, h2)) \<Rightarrow>
          y1 < y2 \<or> (y1 = y2 \<and> (m1 < m2 \<or> (m1 = m2 \<and> (d1 < d2 \<or> (d1 = d2 \<and> h1 < h2))))))"

text \<open>
  The year and month that \<open>dateToJulianDay\<close> works with after its first statement, and
  the integer values of its year terms and of its month term.
\<close>

definition shiftYear :: "int \<Rightarrow> int \<Rightarrow> int" where
  "shiftYear y m = (if m \<le> 2 then y - 1 else y)"

definition shiftMonth :: "int \<Rightarrow> int" where
  "shiftMonth m = (if m \<le> 2 then m + 12 else m)"

definition dayCount :: "int \<Rightarrow> int" where
  "dayCount Y = 365 * Y + Y div 4 - Y div 100 + Y div 400"

definition monthTerm :: "int \<Rightarrow> int" where
  "monthTerm M = (306001 * (M + 1)) div 10000"

section \<open>Properties of the remainder and of angle normalization\<close>

lemmas planet_codes =
  SUN_def MOON_def MERCURY_def VENUS_def MARS_def JUPITER_def SATURN_def
  URANUS_def NEPTUNE_def PLUTO_def TRUE_NODE_def CHIRON_def

lemma js_rem_nonneg:
  assumes "0 \<le> a" "0 < b"
  shows "js_rem a b = a - b * of_int \<lfloor>a / b\<rfloor>"
  using assms by (cases "a = 0") (simp_all add: js_rem_def)

lemma js_rem_neg:
  assumes "a < 0" "0 < b"
  shows "js_rem a b = - (- a - b * of_int \<lfloor>- a / b\<rfloor>)"
  using assms by (simp add: js_rem_def)

lemma frac_part_bounds:
  fixes a b :: real
  assumes "0 < b"
  shows "0 \<le> a - b * of_int \<lfloor>a / b\<rfloor>" and "a - b * of_int \<lfloor>a / b\<rfloor> < b"
proof -
  have "of_int \<lfloor>a / b\<rfloor> * b \<le> a"
    using assms by (metis of_int_floor_le pos_le_divide_eq)
  then show "0 \<le> a - b * of_int \<lfloor>a / b\<rfloor>" by (simp add: mult.commute)
  have "a / b < of_int \<lfloor>a / b\<rfloor> + 1" by linarith
  then have "a < (of_int \<lfloor>a / b\<rfloor> + 1) * b"
    using assms by (metis pos_divide_less_eq)
  then show "a - b * of_int \<lfloor>a / b\<rfloor> < b" by (simp add: algebra_simps)
qed

lemma js_rem_nonneg_bounds:
  assumes "0 \<le> a" "0 < b"
  shows "0 \<le> js_rem a b" and "js_rem a b < b"
  using assms frac_part_bounds [of b a] by (simp_all add: js_rem_nonneg)

lemma js_rem_neg_bounds:
  assumes "a < 0" "0 < b"
  shows "- b < js_rem a b" and "js_rem a b \<le> 0"
  using assms frac_part_bounds [of b "- a"] by (simp_all add: js_rem_neg)

lemma js_rem_small:
  assumes "0 \<le> a" "a < b"
  shows "js_rem a b = a"
proof -
  have "\<lfloor>a / b\<rfloor> = 0" using assms by (simp add: floor_eq_iff)
  then show ?thesis using assms by (simp add: js_rem_nonneg)
qed

lemma normalizeAngle_range: "0 \<le> normalizeAngle x \<and> normalizeAngle x < 360"
proof (cases "0 \<le> x")
  case True
  then show ?thesis
    using js_rem_nonneg_bounds [of x 360] by (simp add: normalizeAngle_def Let_def)
next
  case False
  then show ?thesis
    using js_rem_neg_bounds [of x 360] by (simp add: normalizeAngle_def Let_def)
qed

lemma normalizeAngle_id: "0 \<le> x \<Longrightarrow> x < 360 \<Longrightarrow> normalizeAngle x = x"
  by (simp add: normalizeAngle_def Let_def js_rem_small)

subsection \<open>Rounding to binary64\<close>

lemma roundHalfEven_of_int: "roundHalfEven (of_int n) = n"
  by (simp add: roundHalfEven_def)

lemma roundHalfEven_error: "\<bar>of_int (roundHalfEven y) - y\<bar> \<le> 1 / 2"
proof -
  have "of_int \<lfloor>y\<rfloor> \<le> y" "y < of_int \<lfloor>y\<rfloor> + 1" by linarith+
  then show ?thesis by (auto simp: roundHalfEven_def Let_def)
qed

lemma roundHalfEven_bounds: "\<lfloor>y\<rfloor> \<le> roundHalfEven y" "roundHalfEven y \<le> \<lfloor>y\<rfloor> + 1"
  by (auto simp: roundHalfEven_def Let_def)

lemma roundHalfEven_mono:
  assumes "y \<le> z"
  shows "roundHalfEven y \<le> roundHalfEven z"
proof (cases "\<lfloor>y\<rfloor> = \<lfloor>z\<rfloor>")
  case True
  then show ?thesis using assms by (auto simp: roundHalfEven_def Let_def)
next
  case False
  then have "\<lfloor>y\<rfloor> + 1 \<le> \<lfloor>z\<rfloor>" using floor_mono [OF assms] by linarith
  then show ?thesis
    using roundHalfEven_bounds(2) [of y] roundHalfEven_bounds(1) [of z] by linarith
qed

lemma roundHalfEven_minus: "roundHalfEven (- y) = - roundHalfEven y"
proof (cases "y = of_int \<lfloor>y\<rfloor>")
  case True
  then obtain n where "y = of_int n" ..
  then have "roundHalfEven (- y) = roundHalfEven (of_int (- n))" by simp
  also have "\<dots> = - n" by (rule roundHalfEven_of_int)
  finally show ?thesis using \<open>y = of_int n\<close> by (simp add: roundHalfEven_of_int)
next
  case False
  then have lt: "of_int \<lfloor>y\<rfloor> < y" "y < of_int \<lfloor>y\<rfloor> + 1" by linarith+
  have fm: "\<lfloor>- y\<rfloor> = - \<lfloor>y\<rfloor> - 1"
  proof (rule floor_unique)
    have e: "real_of_int (- \<lfloor>y\<rfloor> - 1) = - real_of_int \<lfloor>y\<rfloor> - 1" by simp
    show "of_int (- \<lfloor>y\<rfloor> - 1) \<le> - y" unfolding e using lt by linarith
    show "- y < of_int (- \<lfloor>y\<rfloor> - 1) + 1" unfolding e using lt by linarith
  qed
  show ?thesis
    using lt unfolding roundHalfEven_def Let_def fm by (auto simp: algebra_simps)
qed


lemma binade_eq:
  assumes "2 powi e \<le> \<bar>x\<bar>" "\<bar>x\<bar> < 2 powi (e + 1)"
  shows "binade x = e"
proof -
  have pos: "0 < \<bar>x\<bar>"
    using assms(1) zero_less_power_int [of "2::real" e] by linarith
  have "2 powr real_of_int e \<le> \<bar>x\<bar>" "\<bar>x\<bar> < 2 powr (real_of_int e + 1)"
    using assms powr_real_of_int' [of 2 e] powr_real_of_int' [of 2 "e + 1"] by simp_all
  then show ?thesis
    unfolding binade_def using pos by (simp add: floor_log_eq_powr_iff)
qed

lemma binade_bounds:
  assumes "x \<noteq> 0"
  shows "2 powi binade x \<le> \<bar>x\<bar>" and "\<bar>x\<bar> < 2 powi (binade x + 1)"
proof -
  have pos: "0 < \<bar>x\<bar>" using assms by simp
  have "2 powr real_of_int (binade x) \<le> \<bar>x\<bar> \<and> \<bar>x\<bar> < 2 powr (real_of_int (binade x) + 1)"
    using floor_log_eq_powr_iff [of "\<bar>x\<bar>" 2 "binade x"] pos by (simp add: binade_def)
  then show "2 powi binade x \<le> \<bar>x\<bar>" and "\<bar>x\<bar> < 2 powi (binade x + 1)"
    using powr_real_of_int' [of 2 "binade x"] powr_real_of_int' [of 2 "binade x + 1"]
    by simp_all
qed

lemma binade_minus: "binade (- x) = binade x"
  by (simp add: binade_def)

lemma binade_less:
  assumes "x \<noteq> 0" "\<bar>x\<bar> < 2 powi k"
  shows "binade x < k"
proof (rule ccontr)
  assume "\<not> binade x < k"
  then have "(2::real) powi k \<le> 2 powi binade x"
    by (intro power_int_increasing) simp_all
  then show False using binade_bounds(1) [OF assms(1)] assms(2) by linarith
qed

lemma binade_mono:
  assumes "x \<noteq> 0" "\<bar>x\<bar> \<le> \<bar>y\<bar>"
  shows "binade x \<le> binade y"
proof -
  have y: "y \<noteq> 0" using assms by auto
  have "\<bar>x\<bar> < 2 powi (binade y + 1)"
    using binade_bounds(2) [OF y] assms(2) by linarith
  then have "binade x < binade y + 1" by (rule binade_less [OF assms(1)])
  then show ?thesis by simp
qed

lemma quantum_pos: "0 < quantum x"
  by (simp add: quantum_def)

lemma quantum_minus: "quantum (- x) = quantum x"
  by (simp add: quantum_def binade_minus)

lemma quantum_le:
  assumes "x \<noteq> 0" "\<bar>x\<bar> < 2 powi k" "- 1021 \<le> k"
  shows "quantum x \<le> 2 powi (k - 53)"
proof -
  have "binade x < k" by (rule binade_less [OF assms(1,2)])
  then have "max (binade x - 52) (- 1074) \<le> k - 53" using assms(3) by simp
  then show ?thesis unfolding quantum_def by (intro power_int_increasing) simp_all
qed

lemma fl_minus: "fl (- x) = - fl x"
  by (simp add: fl_def quantum_minus roundHalfEven_minus)

lemma fl_0: "fl 0 = 0"
  by (simp add: fl_def)

lemma fl_error: "\<bar>fl x - x\<bar> \<le> quantum x / 2"
proof (cases "x = 0")
  case True
  then show ?thesis using quantum_pos [of x] by (simp add: fl_def)
next
  case False
  define q where "q = quantum x"
  have q: "0 < q" unfolding q_def by (rule quantum_pos)
  have "\<bar>of_int (roundHalfEven (x / q)) - x / q\<bar> \<le> 1 / 2" by (rule roundHalfEven_error)
  then have "\<bar>of_int (roundHalfEven (x / q)) - x / q\<bar> * q \<le> 1 / 2 * q"
    using q by (intro mult_right_mono) simp_all
  moreover have "\<bar>of_int (roundHalfEven (x / q)) - x / q\<bar> * q =
      \<bar>of_int (roundHalfEven (x / q)) * q - x\<bar>"
  proof -
    have "(of_int (roundHalfEven (x / q)) - x / q) * q = of_int (roundHalfEven (x / q)) * q - x"
      using q by (simp add: field_simps)
    then have "\<bar>of_int (roundHalfEven (x / q)) * q - x\<bar> =
        \<bar>of_int (roundHalfEven (x / q)) - x / q\<bar> * \<bar>q\<bar>"
      by (simp only: abs_mult [symmetric])
    then show ?thesis using q by simp
  qed
  ultimately show ?thesis using False by (simp add: fl_def q_def)
qed

lemma fl_error_bound:
  assumes "\<bar>x\<bar> < 2 powi k" "- 1021 \<le> k"
  shows "\<bar>fl x - x\<bar> \<le> 2 powi (k - 54)"
proof (cases "x = 0")
  case True
  then show ?thesis by (simp add: fl_def)
next
  case False
  have "\<bar>fl x - x\<bar> \<le> quantum x / 2" by (rule fl_error)
  also have "\<dots> \<le> 2 powi (k - 53) / 2"
    using quantum_le [OF False assms] by simp
  also have "\<dots> = 2 powi (k - 54)"
    using power_int_add [of "2::real" "k - 54" 1] by simp
  finally show ?thesis .
qed

lemma fl_grid_le:
  assumes "x \<noteq> 0" "x \<le> of_int M * quantum x"
  shows "fl x \<le> of_int M * quantum x"
proof -
  have "x / quantum x \<le> of_int M"
    using assms(2) quantum_pos [of x] by (simp add: pos_divide_le_eq)
  then have "roundHalfEven (x / quantum x) \<le> M"
    using roundHalfEven_mono [of "x / quantum x" "of_int M"] by (simp add: roundHalfEven_of_int)
  then have "real_of_int (roundHalfEven (x / quantum x)) \<le> real_of_int M" by simp
  then show ?thesis
    using assms(1) quantum_pos [of x] by (simp add: fl_def)
qed

lemma fl_grid_ge:
  assumes "x \<noteq> 0" "of_int M * quantum x \<le> x"
  shows "of_int M * quantum x \<le> fl x"
proof -
  have "of_int M \<le> x / quantum x"
    using assms(2) quantum_pos [of x] by (simp add: pos_le_divide_eq)
  then have "M \<le> roundHalfEven (x / quantum x)"
    using roundHalfEven_mono [of "of_int M" "x / quantum x"] by (simp add: roundHalfEven_of_int)
  then have "real_of_int M \<le> real_of_int (roundHalfEven (x / quantum x))" by simp
  then show ?thesis
    using assms(1) quantum_pos [of x] by (simp add: fl_def)
qed

lemma pow2_of_int: "0 \<le> k \<Longrightarrow> (2::real) powi k = of_int (2 ^ nat k)"
  by (simp add: power_int_def)

lemma fl_exact:
  assumes m: "\<bar>m\<bar> < 2 ^ 53" and j: "- 1074 \<le> j"
  shows "fl (of_int m * 2 powi j) = of_int m * 2 powi j"
proof (cases "m = 0")
  case True
  then show ?thesis by (simp add: fl_def)
next
  case False
  define x where "x = real_of_int m * 2 powi j"
  have x0: "x \<noteq> 0" using False by (simp add: x_def)
  have "\<bar>x\<bar> = real_of_int \<bar>m\<bar> * 2 powi j" by (simp add: x_def abs_mult)
  also have "\<dots> < 2 ^ 53 * 2 powi j"
    using m by (intro mult_strict_right_mono) (simp_all add: of_int_less_numeral_power_cancel_iff)
  also have "\<dots> = 2 powi (53 + j)"
    using power_int_add [of "2::real" 53 j] by simp
  finally have "binade x < 53 + j" by (rule binade_less [OF x0])
  then have qe: "max (binade x - 52) (- 1074) \<le> j" using j by simp
  define d where "d = j - max (binade x - 52) (- 1074)"
  have d: "0 \<le> d" using qe by (simp add: d_def)
  have "2 powi j = 2 powi d * quantum x"
    unfolding quantum_def d_def using power_int_add [of "2::real" "j - max (binade x - 52) (- 1074)" "max (binade x - 52) (- 1074)"]
    by simp
  then have xq: "x = of_int (m * 2 ^ nat d) * quantum x"
    using pow2_of_int [OF d] by (simp add: x_def)
  have "fl x \<le> of_int (m * 2 ^ nat d) * quantum x"
    by (rule fl_grid_le [OF x0]) (use xq in simp)
  moreover have "of_int (m * 2 ^ nat d) * quantum x \<le> fl x"
    by (rule fl_grid_ge [OF x0]) (use xq in simp)
  ultimately show ?thesis using xq unfolding x_def by linarith
qed

lemma fl_of_int: "\<bar>n\<bar> < 2 ^ 53 \<Longrightarrow> fl (of_int n) = of_int n"
  using fl_exact [of n 0] by simp


lemma fl_mono_pos:
  assumes x: "0 < x" and xy: "x \<le> y"
  shows "fl x \<le> fl y"
proof -
  have x0: "x \<noteq> 0" and y0: "y \<noteq> 0" and ypos: "0 < y" using x xy by simp_all
  define ex where "ex = max (binade x - 52) (- 1074)"
  define ey where "ey = max (binade y - 52) (- 1074)"
  have bxy: "binade x \<le> binade y"
    by (rule binade_mono [OF x0]) (use x xy in simp)
  then have exy: "ex \<le> ey" by (simp add: ex_def ey_def)
  have qx: "quantum x = 2 powi ex" and qy: "quantum y = 2 powi ey"
    by (simp_all add: quantum_def ex_def ey_def)
  show ?thesis
  proof (cases "ex = ey")
    case True
    then have q: "quantum x = quantum y" by (simp add: qx qy)
    have "x / quantum y \<le> y / quantum y"
      using xy quantum_pos [of y] by (simp add: divide_right_mono)
    then have "real_of_int (roundHalfEven (x / quantum y)) \<le>
        real_of_int (roundHalfEven (y / quantum y))"
      using roundHalfEven_mono by simp
    then show ?thesis
      using x0 y0 q quantum_pos [of y] by (simp add: fl_def)
  next
    case False
    then have lt: "ex < ey" using exy by simp
    then have ey_eq: "ey = binade y - 52" and bx: "binade x < binade y"
      by (auto simp: ex_def ey_def)
    have mid: "x \<le> 2 powi binade y"
    proof -
      have "\<bar>x\<bar> < 2 powi (binade x + 1)" by (rule binade_bounds(2) [OF x0])
      moreover have "(2::real) powi (binade x + 1) \<le> 2 powi binade y"
        using bx by (intro power_int_increasing) simp_all
      ultimately show ?thesis using x by simp
    qed
    have dx: "0 \<le> binade y - ex" using lt ey_eq by simp
    have px: "(2::real) powi binade y = of_int (2 ^ nat (binade y - ex)) * quantum x"
      unfolding qx using power_int_add [of "2::real" "binade y - ex" ex] pow2_of_int [OF dx]
      by simp
    have py: "(2::real) powi binade y = of_int (2 ^ 52) * quantum y"
      unfolding qy ey_eq using power_int_add [of "2::real" 52 "binade y - 52"] by simp
    have "fl x \<le> of_int (2 ^ nat (binade y - ex)) * quantum x"
      by (rule fl_grid_le [OF x0]) (use mid px in simp)
    moreover have "of_int (2 ^ 52) * quantum y \<le> fl y"
    proof (rule fl_grid_ge [OF y0])
      show "of_int (2 ^ 52) * quantum y \<le> y"
        using binade_bounds(1) [OF y0] ypos unfolding py [symmetric] by simp
    qed
    ultimately show ?thesis using px py by linarith
  qed
qed

lemma fl_nonneg: "0 \<le> x \<Longrightarrow> 0 \<le> fl x"
proof (cases "x = 0")
  case True
  then show ?thesis by (simp add: fl_def)
next
  case False
  assume "0 \<le> x"
  then have "of_int 0 * quantum x \<le> fl x"
    by (intro fl_grid_ge [OF False]) simp
  then show ?thesis by simp
qed

lemma fl_mono:
  assumes "x \<le> y"
  shows "fl x \<le> fl y"
proof -
  consider (pos) "0 < x" | (zero) "x \<le> 0" "0 \<le> y" | (neg) "y < 0"
    using assms by linarith
  then show ?thesis
  proof cases
    case pos
    then show ?thesis using assms by (rule fl_mono_pos)
  next
    case zero
    have "0 \<le> fl y" using zero(2) by (rule fl_nonneg)
    moreover have "0 \<le> fl (- x)" using zero(1) by (intro fl_nonneg) simp
    ultimately show ?thesis by (simp add: fl_minus)
  next
    case neg
    then have "fl (- y) \<le> fl (- x)" using assms by (intro fl_mono_pos) simp_all
    then show ?thesis by (simp add: fl_minus)
  qed
qed

lemma fl_eval:
  assumes "2 powi e \<le> \<bar>x\<bar>" "\<bar>x\<bar> < 2 powi (e + 1)"
  shows "fl x = of_int (roundHalfEven (x / 2 powi (max (e - 52) (- 1074)))) *
                2 powi (max (e - 52) (- 1074))"
proof -
  have "0 < \<bar>x\<bar>"
    using assms(1) zero_less_power_int [of "2::real" e] by linarith
  then have "x \<noteq> 0" by auto
  then show ?thesis by (simp add: fl_def quantum_def binade_eq [OF assms])
qed

text \<open>
  Claim C9 says that \<open>normalizeAngle\<close> maps every angle into the interval from 0
  (included) to 360 (excluded) and is idempotent. The code returns 10 for 370 and 350 for
  -10, as the claim says. For the binary64 value of the literal \<open>-1e-20\<close> the remainder
  is the value itself, and its sum with 360 rounds to exactly 360: the code returns 360,
  outside the interval, and normalizing that result once more gives 0.
\<close>

theorem normalizeAngle64_returns_360:
  "fl (- (6646139978924579 / 2 ^ 119)) = - (6646139978924579 / 2 ^ 119) \<and>
   normalizeAngle64 (- (6646139978924579 / 2 ^ 119)) = 360 \<and>
   normalizeAngle64 (normalizeAngle64 (- (6646139978924579 / 2 ^ 119))) = 0 \<and>
   normalizeAngle64 370 = 10 \<and> normalizeAngle64 (- 10) = 350"
proof -
  have d: "fl (- (6646139978924579 / 2 ^ 119)) = - (6646139978924579 / 2 ^ 119)"
    by (subst fl_eval [of "- 67"]) (simp_all add: roundHalfEven_def)
  have r: "js_rem (- (6646139978924579 / 2 ^ 119)) 360 = - (6646139978924579 / 2 ^ 119)"
    by (simp add: js_rem_def)
  have f: "fl (- (6646139978924579 / 2 ^ 119) + 360) = 360"
    by (subst fl_eval [of 8]) (simp_all add: roundHalfEven_def)
  have n: "- (6646139978924579 / 2 ^ 119) < (0::real)" by simp
  have a: "normalizeAngle64 (- (6646139978924579 / 2 ^ 119)) = 360"
    unfolding normalizeAngle64_def Let_def r using n f by (simp only: if_True)
  have b: "normalizeAngle64 360 = 0"
    by (simp add: normalizeAngle64_def js_rem_def)
  have c: "normalizeAngle64 370 = 10"
    by (simp add: normalizeAngle64_def js_rem_def)
  have "fl 350 = 350"
    by (subst fl_eval [of 8]) (simp_all add: roundHalfEven_def)
  then have e: "normalizeAngle64 (- 10) = 350"
    by (simp add: normalizeAngle64_def js_rem_def)
  show ?thesis using d a b c e by simp
qed

section \<open>Aspects\<close>

lemma calculateAspect_separation:
  "calculateAspect long1 long2 = aspectLoop (separation long1 long2) ASPECTS"
  by (simp add: calculateAspect_def separation_def Let_def)

text \<open>
  Claim C8. Aspect detection is symmetric: \<open>calculateAspect a b\<close> and
  \<open>calculateAspect b a\<close> are the same result, the same aspect with the same orb, nature and
  exactness flag, or no aspect in both.
\<close>

theorem calculateAspect_symmetric: "calculateAspect a b = calculateAspect b a"
  by (simp add: calculateAspect_def abs_minus_commute)

text \<open>
  Claim C4. Two longitudes whose folded separation is exactly 90 degrees are in square
  aspect with orb 0 and \<open>exact\<close> true; at a folded separation of 98.5 degrees there is no
  aspect.
\<close>

theorem calculateAspect_square_boundary:
  "(separation long1 long2 = 90 \<longrightarrow>
      calculateAspect long1 long2 =
        Some \<lparr>angle = 90, orb = 0, symbol = 0x25A1, nature = ''challenging'',
              name = ''square'', exact = True\<rparr>) \<and>
   (separation long1 long2 = 98.5 \<longrightarrow> calculateAspect long1 long2 = None)"
  by (simp add: calculateAspect_separation ASPECTS_def)

theorem calculateAspect_square_boundary_witness:
  "separation 100 10 = 90 \<and>
   calculateAspect 100 10 =
     Some \<lparr>angle = 90, orb = 0, symbol = 0x25A1, nature = ''challenging'',
           name = ''square'', exact = True\<rparr> \<and>
   separation 350 88.5 = 98.5 \<and> calculateAspect 350 88.5 = None"
proof -
  have a: "separation 100 10 = 90" by (simp add: separation_def)
  have b: "separation 350 88.5 = 98.5" by (simp add: separation_def)
  from a b calculateAspect_square_boundary [of 100 10]
    calculateAspect_square_boundary [of 350 "88.5"]
  show ?thesis by blast
qed

section \<open>Zodiac decomposition\<close>

lemma js_rem_second_period:
  assumes "b \<le> a" "a < 2 * b" "0 < b"
  shows "js_rem a b = a - b"
proof -
  have "\<lfloor>a / b\<rfloor> = 1" using assms by (simp add: floor_eq_iff pos_le_divide_eq pos_divide_less_eq)
  then show ?thesis using assms by (simp add: js_rem_nonneg)
qed

lemma double_rem_eq_normalizeAngle:
  "js_rem (js_rem x 360 + 360) 360 = normalizeAngle x"
proof (cases "0 \<le> x")
  case True
  then have "0 \<le> js_rem x 360" "js_rem x 360 < 360"
    using js_rem_nonneg_bounds [of x 360] by simp_all
  then show ?thesis
    by (simp add: normalizeAngle_def Let_def js_rem_second_period)
next
  case False
  then have b: "- 360 < js_rem x 360" "js_rem x 360 \<le> 0"
    using js_rem_neg_bounds [of x 360] by simp_all
  show ?thesis
  proof (cases "js_rem x 360 = 0")
    case True
    then show ?thesis by (simp add: normalizeAngle_def Let_def js_rem_second_period)
  next
    case False
    with b show ?thesis by (simp add: normalizeAngle_def Let_def js_rem_small)
  qed
qed

lemma getZodiacPosition_longitude:
  "zodiac_position.longitude (getZodiacPosition x) = normalizeAngle x"
  by (simp add: getZodiacPosition_def Let_def double_rem_eq_normalizeAngle)

lemma getZodiacPosition_fixed:
  "getZodiacPosition (normalizeAngle x) = getZodiacPosition x"
proof -
  have "normalizeAngle (normalizeAngle x) = normalizeAngle x"
    using normalizeAngle_range [of x] by (simp add: normalizeAngle_id)
  then show ?thesis
    by (simp add: getZodiacPosition_def double_rem_eq_normalizeAngle)
qed



section \<open>Positions\<close>

text \<open>The codes with an entry in the table, and the entry a call works with.\<close>

lemma PLANETS_codes:
  "set (map snd PLANETS) =
     {SUN, MOON, MERCURY, VENUS, MARS, JUPITER, SATURN, URANUS, NEPTUNE, PLUTO, TRUE_NODE, CHIRON}"
  by (simp add: PLANETS_def)

lemma elements_None:
  "planetCode \<notin> {MERCURY, VENUS, MARS, JUPITER, SATURN, URANUS, NEPTUNE, PLUTO, TRUE_NODE, CHIRON}
   \<Longrightarrow> elements T planetCode = None"
  by (simp add: elements_def planet_codes)

lemma elements_fallback:
  assumes "planetCode \<notin> {MERCURY, VENUS, MARS, JUPITER, SATURN, URANUS, NEPTUNE, PLUTO, TRUE_NODE, CHIRON}"
  shows "(case elements T planetCode of Some el \<Rightarrow> el | None \<Rightarrow> the (elements T MARS)) =
         (case elements T MARS of Some el \<Rightarrow> el | None \<Rightarrow> the (elements T MARS))"
  using elements_None [OF assms] by (simp add: elements_def planet_codes)

lemma calculateOuterPlanet_returns: "\<exists>p. calculateOuterPlanet JD planetCode = Inr p"
  by (simp add: calculateOuterPlanet_def Let_def)

lemma calculatePlanetPosition_returns: "\<exists>p. calculatePlanetPosition JD planetCode = Inr p"
proof -
  obtain r where "calculateOuterPlanet JD planetCode = Inr r"
    using calculateOuterPlanet_returns by blast
  then show ?thesis by (simp add: calculatePlanetPosition_def Let_def)
qed

lemma calculateOuterPlanet_default:
  assumes "planetCode \<notin> {MERCURY, VENUS, MARS, JUPITER, SATURN, URANUS, NEPTUNE, PLUTO, TRUE_NODE, CHIRON}"
  shows "ecliptic_position.longitude (projr (calculateOuterPlanet JD planetCode)) =
           ecliptic_position.longitude (projr (calculateOuterPlanet JD MARS))"
    and "ecliptic_position.latitude (projr (calculateOuterPlanet JD planetCode)) =
           ecliptic_position.latitude (projr (calculateOuterPlanet JD MARS))"
    and "ecliptic_position.distance (projr (calculateOuterPlanet JD planetCode)) =
           ecliptic_position.distance (projr (calculateOuterPlanet JD MARS))"
proof -
  have n: "planetCode \<noteq> TRUE_NODE" "MARS \<noteq> TRUE_NODE"
    using assms by (simp_all add: planet_codes)
  note fb = elements_fallback [OF assms]
  show "ecliptic_position.longitude (projr (calculateOuterPlanet JD planetCode)) =
           ecliptic_position.longitude (projr (calculateOuterPlanet JD MARS))"
    using n unfolding calculateOuterPlanet_def Let_def fb by simp
  show "ecliptic_position.latitude (projr (calculateOuterPlanet JD planetCode)) =
           ecliptic_position.latitude (projr (calculateOuterPlanet JD MARS))"
    using n unfolding calculateOuterPlanet_def Let_def fb by simp
  show "ecliptic_position.distance (projr (calculateOuterPlanet JD planetCode)) =
           ecliptic_position.distance (projr (calculateOuterPlanet JD MARS))"
    using n unfolding calculateOuterPlanet_def Let_def fb by simp
qed





lemma calculatePlanetPosition_outer:
  fixes JD :: real and planetCode :: int
  assumes "planetCode \<noteq> SUN" "planetCode \<noteq> MOON"
  defines "r \<equiv> projr (calculateOuterPlanet JD planetCode)"
  shows "calculatePlanetPosition JD planetCode =
     Inr \<lparr>sign = sign (getZodiacPosition (ecliptic_position.longitude r)),
          signIndex = signIndex (getZodiacPosition (ecliptic_position.longitude r)),
          degree = degree (getZodiacPosition (ecliptic_position.longitude r)),
          minutes = minutes (getZodiacPosition (ecliptic_position.longitude r)),
          zodiac_position.longitude = normalizeAngle (ecliptic_position.longitude r),
          planet_position.latitude = ecliptic_position.latitude r,
          planet_position.distance = ecliptic_position.distance r,
          planet_position.longitudeSpeed = ecliptic_position.longitudeSpeed r,
          planet_position.isRetrograde = ecliptic_position.isRetrograde r\<rparr>"
proof -
  obtain q where q: "calculateOuterPlanet JD planetCode = Inr q"
    using calculateOuterPlanet_returns by blast
  then show ?thesis
    using assms(1,2) unfolding r_def
    by (simp add: calculatePlanetPosition_def Let_def getZodiacPosition_longitude)
qed




text \<open>
  Claim C1 says that a body code outside the twelve of \<open>PLANETS\<close> makes the position
  functions fail. At the code 99 both return, with the longitude, latitude and distance
  that the elements of Mars give.
\<close>

theorem unrecognized_body_counterexample:
  "(99::int) \<notin> set (map snd PLANETS) \<and>
   \<not> isl (calculateOuterPlanet 2451545 99) \<and>
   \<not> isl (calculatePlanetPosition 2451545 99) \<and>
   ecliptic_position.longitude (projr (calculateOuterPlanet 2451545 99)) =
     ecliptic_position.longitude (projr (calculateOuterPlanet 2451545 MARS)) \<and>
   ecliptic_position.latitude (projr (calculateOuterPlanet 2451545 99)) =
     ecliptic_position.latitude (projr (calculateOuterPlanet 2451545 MARS)) \<and>
   ecliptic_position.distance (projr (calculateOuterPlanet 2451545 99)) =
     ecliptic_position.distance (projr (calculateOuterPlanet 2451545 MARS))"
proof -
  have n: "(99::int) \<notin> {MERCURY, VENUS, MARS, JUPITER, SATURN, URANUS, NEPTUNE, PLUTO,
                          TRUE_NODE, CHIRON}"
    by (simp add: planet_codes)
  have "(99::int) \<noteq> SUN" "(99::int) \<noteq> MOON" by (simp_all add: planet_codes)
  moreover have "\<not> isl (calculateOuterPlanet 2451545 99)"
    using calculateOuterPlanet_returns [of 2451545 99] by auto
  moreover have "\<not> isl (calculatePlanetPosition 2451545 99)"
    using calculatePlanetPosition_returns [of 2451545 99] by auto
  ultimately show ?thesis
    unfolding PLANETS_codes using n calculateOuterPlanet_default [OF n, of 2451545] by simp
qed

text \<open>
  Claim C1, amended. For a body code outside the twelve of \<open>PLANETS\<close> the position
  functions do not fail: they return the longitude, latitude and distance, and the zodiac
  decomposition, that they return for Mars, computed from the orbital elements of Mars.
\<close>

theorem unrecognized_body_uses_Mars:
  assumes "planetCode \<notin> set (map snd PLANETS)"
  shows "\<exists>q n p m.
     calculateOuterPlanet JD planetCode = Inr q \<and> calculateOuterPlanet JD MARS = Inr n \<and>
     ecliptic_position.longitude q = ecliptic_position.longitude n \<and>
     ecliptic_position.latitude q = ecliptic_position.latitude n \<and>
     ecliptic_position.distance q = ecliptic_position.distance n \<and>
     calculatePlanetPosition JD planetCode = Inr p \<and> calculatePlanetPosition JD MARS = Inr m \<and>
     zodiac_position.longitude p = zodiac_position.longitude m \<and>
     sign p = sign m \<and> signIndex p = signIndex m \<and> degree p = degree m \<and>
     minutes p = minutes m \<and>
     planet_position.latitude p = planet_position.latitude m \<and>
     planet_position.distance p = planet_position.distance m"
proof -
  have n: "planetCode \<notin> {MERCURY, VENUS, MARS, JUPITER, SATURN, URANUS, NEPTUNE, PLUTO,
                          TRUE_NODE, CHIRON}"
    and c: "planetCode \<noteq> SUN" "planetCode \<noteq> MOON"
    using assms unfolding PLANETS_codes by simp_all
  have m: "MARS \<noteq> SUN" "MARS \<noteq> MOON" by (simp_all add: planet_codes)
  obtain q where q: "calculateOuterPlanet JD planetCode = Inr q"
    using calculateOuterPlanet_returns by blast
  obtain n' where n': "calculateOuterPlanet JD MARS = Inr n'"
    using calculateOuterPlanet_returns by blast
  have eq: "ecliptic_position.longitude q = ecliptic_position.longitude n'"
    "ecliptic_position.latitude q = ecliptic_position.latitude n'"
    "ecliptic_position.distance q = ecliptic_position.distance n'"
    using calculateOuterPlanet_default [OF n, of JD] by (simp_all add: q n')
  show ?thesis
    unfolding calculatePlanetPosition_outer [OF c] calculatePlanetPosition_outer [OF m]
    using eq by (simp add: q n')
qed

theorem unrecognized_body_uses_Mars_witness:
  "(99::int) \<notin> set (map snd PLANETS) \<and>
   (\<exists>q n p m.
     calculateOuterPlanet 2451545 99 = Inr q \<and> calculateOuterPlanet 2451545 MARS = Inr n \<and>
     ecliptic_position.longitude q = ecliptic_position.longitude n \<and>
     ecliptic_position.latitude q = ecliptic_position.latitude n \<and>
     ecliptic_position.distance q = ecliptic_position.distance n \<and>
     calculatePlanetPosition 2451545 99 = Inr p \<and>
     calculatePlanetPosition 2451545 MARS = Inr m \<and>
     zodiac_position.longitude p = zodiac_position.longitude m \<and>
     sign p = sign m \<and> signIndex p = signIndex m \<and> degree p = degree m \<and>
     minutes p = minutes m \<and>
     planet_position.latitude p = planet_position.latitude m \<and>
     planet_position.distance p = planet_position.distance m)"
proof -
  have h: "(99::int) \<notin> set (map snd PLANETS)"
    by (simp add: PLANETS_def planet_codes)
  from h unrecognized_body_uses_Mars [OF h, of 2451545] show ?thesis by blast
qed


section \<open>Local time to UTC\<close>

lemma int_div_bounds:
  fixes x k :: int
  assumes "0 < k"
  shows "k * (x div k) \<le> x" and "x < k * (x div k) + k"
proof -
  have "x = k * (x div k) + x mod k" by simp
  moreover have "0 \<le> x mod k" "x mod k < k" using assms by simp_all
  ultimately show "k * (x div k) \<le> x" and "x < k * (x div k) + k" by linarith+
qed









section \<open>House placement\<close>

declare houseLoop.simps [simp del]

lemma houseLoop_step:
  "i < 12 \<Longrightarrow> houseLoop p cs i =
     (if inWrapped p (cs ! i) (cs ! ((i + 1) mod 12)) then Some (i + 1)
      else houseLoop p cs (i + 1))"
  by (subst houseLoop.simps) (simp add: inWrapped_def Let_def)

lemma houseLoop_end: "\<not> i < 12 \<Longrightarrow> houseLoop p cs i = None"
  by (subst houseLoop.simps) simp

lemma houseLoop_first_match:
  assumes "h < 12" "i \<le> h"
    and "inWrapped p (cs ! h) (cs ! ((h + 1) mod 12))"
    and "\<And>j. i \<le> j \<Longrightarrow> j < h \<Longrightarrow> \<not> inWrapped p (cs ! j) (cs ! ((j + 1) mod 12))"
  shows "houseLoop p cs i = Some (h + 1)"
  using assms(2,4)
proof (induction "h - i" arbitrary: i)
  case 0
  then have "i = h" by simp
  then show ?case using assms(1,3) by (simp add: houseLoop_step)
next
  case (Suc n)
  then have i: "i < h" "i < 12" using assms(1) by simp_all
  have "\<not> inWrapped p (cs ! i) (cs ! ((i + 1) mod 12))"
    using Suc.prems(2) [of i] i by simp
  moreover have "houseLoop p cs (i + 1) = Some (h + 1)"
    using Suc.hyps(1) [of "i + 1"] Suc.hyps(2) Suc.prems i by simp
  ultimately show ?case using i by (simp add: houseLoop_step)
qed

lemma pushCusps_cuspOf:
  assumes "\<forall>i \<in> set ks. houseCusps i \<noteq> None"
  shows "pushCusps houseCusps ks = Inr (map (cuspOf houseCusps) ks)"
  using assms by (induction ks) (auto simp: cuspOf_def)


lemma normalizeAngle_cases:
  assumes "0 \<le> x" "x < 720"
  shows "normalizeAngle x = (if x < 360 then x else x - 360)"
proof (cases "x < 360")
  case True
  then show ?thesis using assms by (simp add: normalizeAngle_id)
next
  case False
  then have "js_rem x 360 = x - 360"
    using assms by (simp add: js_rem_second_period)
  then show ?thesis using False by (simp add: normalizeAngle_def Let_def)
qed

lemma equal_house_interval:
  fixes a p :: real and k :: nat
  assumes a: "0 \<le> a" "a < 360" and p: "0 \<le> p" "p < 360" and k: "k < 12"
  defines "d \<equiv> (if a \<le> p then p - a else p - a + 360)"
  shows "inWrapped p (normalizeAngle (a + real k * 30))
           (normalizeAngle (a + real ((k + 1) mod 12) * 30)) \<longleftrightarrow>
         real k * 30 \<le> d \<and> d < (real k + 1) * 30"
proof -
  have rk: "0 \<le> real k" "real k \<le> 11" using k by simp_all
  have s: "normalizeAngle (a + real k * 30) =
      (if a + real k * 30 < 360 then a + real k * 30 else a + real k * 30 - 360)"
    using a rk by (intro normalizeAngle_cases) linarith+
  show ?thesis
  proof (cases "k = 11")
    case True
    then have e: "normalizeAngle (a + real ((k + 1) mod 12) * 30) = a"
      using a by (simp add: normalizeAngle_id)
    show ?thesis
      unfolding s e inWrapped_def d_def using a p True by (auto split: if_splits)
  next
    case False
    then have k10: "real k \<le> 10" using k by simp
    have m: "(k + 1) mod 12 = k + 1" using k False by simp
    have e: "normalizeAngle (a + real ((k + 1) mod 12) * 30) =
        (if a + (real k + 1) * 30 < 360 then a + (real k + 1) * 30
         else a + (real k + 1) * 30 - 360)"
    proof -
      have "0 \<le> a + (real k + 1) * 30" "a + (real k + 1) * 30 < 720"
        using a rk k10 by (simp_all add: algebra_simps)
      then show ?thesis
        unfolding m by (simp only: of_nat_add of_nat_1) (rule normalizeAngle_cases)
    qed
    show ?thesis
      unfolding s e inWrapped_def d_def using a p rk k10
      by (auto split: if_splits simp: algebra_simps)
  qed
qed


lemma fold_map_upd:
  "fold (\<lambda>i m. m(i \<mapsto> f i)) ks m0 = (\<lambda>j. if j \<in> set ks then Some (f j) else m0 j)"
proof (induction ks arbitrary: m0)
  case Nil
  then show ?case by simp
next
  case (Cons k ks)
  have "fold (\<lambda>i m. m(i \<mapsto> f i)) (k # ks) m0 = fold (\<lambda>i m. m(i \<mapsto> f i)) ks (m0(k \<mapsto> f k))"
    by simp
  also have "\<dots> = (\<lambda>j. if j \<in> set ks then Some (f j) else (m0(k \<mapsto> f k)) j)"
    by (rule Cons.IH)
  also have "\<dots> = (\<lambda>j. if j \<in> set (k # ks) then Some (f j) else m0 j)"
    by (auto simp: fun_eq_iff)
  finally show ?case .
qed

lemma calculateHouses_cusps_asc:
  "cusps (calculateHouses JD lat lon) =
     (\<lambda>j. if j \<in> set [1..<13]
          then Some (makeCusp (normalizeAngle
                 (zodiac_position.longitude (ascendant (calculateHouses JD lat lon)) +
                  (real j - 1) * 30)))
          else None)"
proof -
  have idem: "\<And>x. normalizeAngle (normalizeAngle x) = normalizeAngle x"
    using normalizeAngle_range by (simp add: normalizeAngle_id)
  show ?thesis
    by (simp add: calculateHouses_def Let_def fold_map_upd getZodiacPosition_longitude idem
        del: set_upt cong: if_cong)
qed

lemma calculateHouses_asc_range:
  "0 \<le> zodiac_position.longitude (ascendant (calculateHouses JD lat lon)) \<and>
   zodiac_position.longitude (ascendant (calculateHouses JD lat lon)) < 360"
  using normalizeAngle_range
  by (simp add: calculateHouses_def Let_def getZodiacPosition_longitude)

lemma calculateHouses_cuspOf:
  assumes "1 \<le> i" "i \<le> 12"
  shows "cuspOf (cusps (calculateHouses JD lat lon)) i =
     normalizeAngle (zodiac_position.longitude (ascendant (calculateHouses JD lat lon)) +
                     (real i - 1) * 30)"
  using assms by (simp add: cuspOf_def calculateHouses_cusps_asc makeCusp_def Let_def)

lemma calculateHouses_defined:
  "\<forall>i \<in> set [1..<13]. cusps (calculateHouses JD lat lon) i \<noteq> None"
  by (simp add: calculateHouses_cusps_asc)


lemma getHousePosition_loop:
  assumes "\<forall>i \<in> set [1..<13]. houseCusps i \<noteq> None"
  shows "getHousePosition p houseCusps =
     Inr (case houseLoop p (map (cuspOf houseCusps) [1..<13]) 0 of
            Some house \<Rightarrow> house | None \<Rightarrow> 1)"
  unfolding getHousePosition_def pushCusps_cuspOf [OF assms]
  by (simp split: option.splits)

lemma cuspsArray_nth:
  "k < 12 \<Longrightarrow> map (cuspOf houseCusps) [1..<13] ! k = cuspOf houseCusps (k + 1)"
  by (simp add: nth_map_upt del: upt_Suc)

lemma nondecreasing_chain:
  fixes c :: "nat \<Rightarrow> real"
  assumes "\<And>j. j < n \<Longrightarrow> c j \<le> c (j + 1)" and "j \<le> k" and "k \<le> n"
  shows "c j \<le> c k"
  using assms(2,3)
proof (induction k)
  case 0
  then show ?case by simp
next
  case (Suc k)
  show ?case
  proof (cases "j = Suc k")
    case True
    then show ?thesis by simp
  next
    case False
    then have "c j \<le> c k" using Suc by simp
    moreover have "c k \<le> c (k + 1)" using assms(1) [of k] Suc.prems by simp
    ultimately show ?thesis by simp
  qed
qed

lemma houseLoop_sorted_wrap:
  assumes ord: "\<And>j. j < 11 \<Longrightarrow> cs ! j \<le> cs ! (j + 1)"
    and cross: "cs ! 0 < cs ! 11"
    and p: "cs ! 11 \<le> p \<or> p < cs ! 0"
  shows "houseLoop p cs 0 = Some 12"
proof -
  have last: "inWrapped p (cs ! 11) (cs ! ((11 + 1) mod 12))"
    using cross p by (simp add: inWrapped_def)
  have none: "\<not> inWrapped p (cs ! j) (cs ! ((j + 1) mod 12))" if "j < 11" for j
  proof -
    have a: "cs ! 0 \<le> cs ! j"
      using nondecreasing_chain [of 11 "\<lambda>j. cs ! j" 0 j] ord that by simp
    have b: "cs ! (j + 1) \<le> cs ! 11"
      using nondecreasing_chain [of 11 "\<lambda>j. cs ! j" "j + 1" 11] ord that by simp
    have c: "cs ! j \<le> cs ! (j + 1)" using ord that by simp
    have m: "(j + 1) mod 12 = j + 1" using that by simp
    show ?thesis unfolding m inWrapped_def using a b c p by auto
  qed
  have "houseLoop p cs 0 = Some (11 + 1)"
    by (rule houseLoop_first_match) (use last none in simp_all)
  then show ?thesis by simp
qed


lemma ascendant_example:
  "zodiac_position.longitude (ascendant (calculateHouses 2451545 0 (- 10.46061837))) = 0"
proof -
  have lst: "normalizeAngle (280.46061837 + - 10.46061837) = 270"
    by (simp add: normalizeAngle_id)
  have rad: "270 * (pi / 180) = 3 / 2 * pi" by simp
  have c: "cos (270 * (pi / 180)) = 0" "sin (270 * (pi / 180)) = - 1"
    unfolding rad by (rule cos_3over2_pi, rule sin_3over2_pi)
  have "0 < cos (23.439 * (pi / 180))"
  proof (rule cos_gt_zero_pi)
    show "- (pi / 2) < 23.439 * (pi / 180)" using pi_gt_zero by simp
    have "23.439 * (pi / 180) = pi * (23.439 / 180)" by simp
    also have "\<dots> < pi * (1 / 2)" using pi_gt_zero by (intro mult_strict_left_mono) simp_all
    finally show "23.439 * (pi / 180) < pi / 2" by simp
  qed
  then have at: "atan2 0 (cos (23.439 * (pi / 180))) = 0"
    by (simp add: atan2_def)
  have "zodiac_position.longitude (ascendant (calculateHouses 2451545 0 (- 10.46061837))) =
      normalizeAngle (normalizeAngle (atan2 (cos (270 * (pi / 180)))
        (- (sin (270 * (pi / 180)) * cos (23.439 * (pi / 180)) +
            tan 0 * sin (23.439 * (pi / 180)))) * RAD_TO_DEG))"
    using lst
    by (simp add: calculateHouses_def Let_def J2000_def DEG_TO_RAD_def
        getZodiacPosition_longitude)
  also have "\<dots> = 0"
    unfolding c using at by (simp add: normalizeAngle_id)
  finally show ?thesis .
qed


lemma cusps_example:
  assumes "1 \<le> i" "i \<le> 12"
  shows "cuspOf (cusps (calculateHouses 2451545 0 (- 10.46061837))) i = (real i - 1) * 30"
proof -
  have "0 \<le> 0 + (real i - 1) * 30" "0 + (real i - 1) * 30 < 360"
    using assms by (simp_all add: algebra_simps)
  then have "normalizeAngle (0 + (real i - 1) * 30) = 0 + (real i - 1) * 30"
    by (rule normalizeAngle_id)
  then show ?thesis
    unfolding calculateHouses_cuspOf [OF assms] ascendant_example by simp
qed

lemma equal_house_cusps_sorted:
  fixes a :: real
  assumes a: "0 \<le> a" "a < 360"
    and cross: "normalizeAngle (a + (real 1 - 1) * 30) < normalizeAngle (a + (real 12 - 1) * 30)"
    and i: "1 \<le> i" "i \<le> 12"
  shows "normalizeAngle (a + (real i - 1) * 30) = a + (real i - 1) * 30"
proof -
  have "normalizeAngle (a + 330) = (if a + 330 < 360 then a + 330 else a + 330 - 360)"
    using a by (intro normalizeAngle_cases) simp_all
  then have "a < 30" using cross a by (simp add: normalizeAngle_id split: if_splits)
  moreover have "0 \<le> real i - 1" "real i - 1 \<le> 11" using i by simp_all
  ultimately have "0 \<le> a + (real i - 1) * 30" "a + (real i - 1) * 30 < 360"
    using a by (simp_all add: algebra_simps)
  then show ?thesis by (rule normalizeAngle_id)
qed

text \<open>
  Claim C7. In a frame of twelve cusps in ascending order, where only the interval from
  cusp 12 to cusp 1 crosses from 360 to 0 degrees, a longitude at or after cusp 12 or
  before cusp 1 is placed in house 12. The frames of \<open>calculateHouses\<close> whose cusp 1 is
  below cusp 12 are such frames.
\<close>

theorem getHousePosition_wraparound:
  "((\<forall>i \<in> {1..12}. houseCusps i \<noteq> None) \<and>
    (\<forall>i \<in> {1..<12}. cuspOf houseCusps i \<le> cuspOf houseCusps (i + 1)) \<and>
    cuspOf houseCusps 1 < cuspOf houseCusps 12 \<and>
    (cuspOf houseCusps 12 \<le> p \<or> p < cuspOf houseCusps 1)
    \<longrightarrow> getHousePosition p houseCusps = Inr 12) \<and>
   (cuspOf (cusps (calculateHouses JD lat lon)) 1 < cuspOf (cusps (calculateHouses JD lat lon)) 12 \<and>
    (cuspOf (cusps (calculateHouses JD lat lon)) 12 \<le> p \<or>
     p < cuspOf (cusps (calculateHouses JD lat lon)) 1)
    \<longrightarrow> getHousePosition p (cusps (calculateHouses JD lat lon)) = Inr 12)"
proof -
  have general: "getHousePosition q hc = Inr 12"
    if d: "\<forall>i \<in> {1..12}. hc i \<noteq> None"
      and ord: "\<forall>i \<in> {1..<12}. cuspOf hc i \<le> cuspOf hc (i + 1)"
      and cross: "cuspOf hc 1 < cuspOf hc 12"
      and q: "cuspOf hc 12 \<le> q \<or> q < cuspOf hc 1"
    for q hc
  proof -
    have d': "\<forall>i \<in> set [1..<13]. hc i \<noteq> None" using d by auto
    have "houseLoop q (map (cuspOf hc) [1..<13]) 0 = Some 12"
    proof (rule houseLoop_sorted_wrap)
      fix j :: nat
      assume "j < 11"
      then show "map (cuspOf hc) [1..<13] ! j \<le> map (cuspOf hc) [1..<13] ! (j + 1)"
        using ord by (simp add: cuspsArray_nth del: upt_Suc)
    next
      show "map (cuspOf hc) [1..<13] ! 0 < map (cuspOf hc) [1..<13] ! 11"
        using cross cuspsArray_nth [of 0 hc] cuspsArray_nth [of 11 hc] by simp
      show "map (cuspOf hc) [1..<13] ! 11 \<le> q \<or> q < map (cuspOf hc) [1..<13] ! 0"
        using q cuspsArray_nth [of 0 hc] cuspsArray_nth [of 11 hc] by simp
    qed
    then show ?thesis by (simp add: getHousePosition_loop [OF d'])
  qed
  have frame: "getHousePosition p (cusps (calculateHouses JD lat lon)) = Inr 12"
    if cross: "cuspOf (cusps (calculateHouses JD lat lon)) 1 <
               cuspOf (cusps (calculateHouses JD lat lon)) 12"
      and q: "cuspOf (cusps (calculateHouses JD lat lon)) 12 \<le> p \<or>
              p < cuspOf (cusps (calculateHouses JD lat lon)) 1"
  proof (rule general [OF _ _ cross q])
    show "\<forall>i \<in> {1..12}. cusps (calculateHouses JD lat lon) i \<noteq> None"
      using calculateHouses_defined [of JD lat lon] by auto
    define a where "a = zodiac_position.longitude (ascendant (calculateHouses JD lat lon))"
    have a: "0 \<le> a" "a < 360" using calculateHouses_asc_range [of JD lat lon] by (simp_all add: a_def)
    have cr: "normalizeAngle (a + (real 1 - 1) * 30) < normalizeAngle (a + (real 12 - 1) * 30)"
      using cross by (simp add: calculateHouses_cuspOf a_def)
    show "\<forall>i \<in> {1..<12}. cuspOf (cusps (calculateHouses JD lat lon)) i \<le>
        cuspOf (cusps (calculateHouses JD lat lon)) (i + 1)"
    proof
      fix i :: nat
      assume i: "i \<in> {1..<12}"
      then have r: "1 \<le> i" "i \<le> 12" "1 \<le> i + 1" "i + 1 \<le> 12" by simp_all
      have "cuspOf (cusps (calculateHouses JD lat lon)) i = a + (real i - 1) * 30"
        using equal_house_cusps_sorted [OF a cr r(1,2)]
        by (simp add: calculateHouses_cuspOf [OF r(1,2)] a_def)
      moreover have "cuspOf (cusps (calculateHouses JD lat lon)) (i + 1) = a + (real (i + 1) - 1) * 30"
        using equal_house_cusps_sorted [OF a cr r(3,4)]
        by (simp only: calculateHouses_cuspOf [OF r(3,4)] a_def)
      ultimately show "cuspOf (cusps (calculateHouses JD lat lon)) i \<le>
          cuspOf (cusps (calculateHouses JD lat lon)) (i + 1)"
        by simp
    qed
  qed
  show ?thesis using general [of houseCusps p] frame by blast
qed


theorem getHousePosition_wraparound_witness:
  "cuspOf (cusps (calculateHouses 2451545 0 (- 10.46061837))) 1 = 0 \<and>
   cuspOf (cusps (calculateHouses 2451545 0 (- 10.46061837))) 12 = 330 \<and>
   getHousePosition 345 (cusps (calculateHouses 2451545 0 (- 10.46061837))) = Inr 12"
proof -
  have c1: "cuspOf (cusps (calculateHouses 2451545 0 (- 10.46061837))) 1 = 0"
    using cusps_example [of 1] by simp
  have c12: "cuspOf (cusps (calculateHouses 2451545 0 (- 10.46061837))) 12 = 330"
    using cusps_example [of 12] by simp
  have "cuspOf (cusps (calculateHouses 2451545 0 (- 10.46061837))) 1 <
        cuspOf (cusps (calculateHouses 2451545 0 (- 10.46061837))) 12 \<and>
        (cuspOf (cusps (calculateHouses 2451545 0 (- 10.46061837))) 12 \<le> 345 \<or>
         345 < cuspOf (cusps (calculateHouses 2451545 0 (- 10.46061837))) 1)"
    unfolding c1 c12 by simp
  with getHousePosition_wraparound
          [where JD = 2451545 and lat = 0 and lon = "- 10.46061837" and p = 345] c1 c12
  show ?thesis by blast
qed

lemma equal_house_cusp_offset:
  fixes a :: real and k :: nat
  assumes a: "0 \<le> a" "a < 360" and k: "k < 12"
  defines "p \<equiv> normalizeAngle (a + real k * 30)"
  shows "(if a \<le> p then p - a else p - a + 360) = real k * 30"
proof -
  have rk: "0 \<le> real k" "real k \<le> 11" using k by simp_all
  have "p = (if a + real k * 30 < 360 then a + real k * 30 else a + real k * 30 - 360)"
    unfolding p_def using a rk by (intro normalizeAngle_cases) linarith+
  then show ?thesis using a rk by (auto split: if_splits)
qed

lemma equal_house_loop:
  fixes a p :: real
  assumes a: "0 \<le> a" "a < 360" and p: "0 \<le> p" "p < 360"
    and cs: "\<And>k. k < 12 \<Longrightarrow> cs ! k = normalizeAngle (a + real k * 30)"
  defines "d \<equiv> (if a \<le> p then p - a else p - a + 360)"
  defines "h \<equiv> nat \<lfloor>d / 30\<rfloor>"
  shows "h < 12"
    and "houseLoop p cs 0 = Some (h + 1)"
    and "\<And>k. k < 12 \<Longrightarrow> inWrapped p (cs ! k) (cs ! ((k + 1) mod 12)) \<longleftrightarrow> k = h"
proof -
  have d: "0 \<le> d" "d < 360" using a p by (auto simp: d_def)
  have fl: "0 \<le> \<lfloor>d / 30\<rfloor>" "\<lfloor>d / 30\<rfloor> < 12"
    using d by (simp_all add: floor_less_iff)
  then show h12: "h < 12" unfolding h_def by linarith
  have rh: "real h = of_int \<lfloor>d / 30\<rfloor>" using fl by (simp add: h_def)
  have hb: "real h * 30 \<le> d" "d < (real h + 1) * 30"
    unfolding rh using of_int_floor_le [of "d / 30"] floor_correct [of "d / 30"]
    by (simp_all add: field_simps)
  show iff: "inWrapped p (cs ! k) (cs ! ((k + 1) mod 12)) \<longleftrightarrow> k = h" if k: "k < 12" for k
  proof -
    have m: "(k + 1) mod 12 < 12" by simp
    have "inWrapped p (cs ! k) (cs ! ((k + 1) mod 12)) \<longleftrightarrow>
        real k * 30 \<le> d \<and> d < (real k + 1) * 30"
      unfolding cs [OF k] cs [OF m] d_def by (rule equal_house_interval [OF a p k])
    also have "\<dots> \<longleftrightarrow> k = h"
    proof
      assume b: "real k * 30 \<le> d \<and> d < (real k + 1) * 30"
      have "real k * 30 < real h * 30 + 30" "real h * 30 < real k * 30 + 30"
        using b hb by (simp_all add: algebra_simps)
      then have "real k < real h + 1" "real h < real k + 1" by linarith+
      then show "k = h" by linarith
    next
      assume "k = h"
      then show "real k * 30 \<le> d \<and> d < (real k + 1) * 30" using hb by simp
    qed
    finally show ?thesis .
  qed
  show "houseLoop p cs 0 = Some (h + 1)"
  proof (rule houseLoop_first_match [OF h12])
    show "inWrapped p (cs ! h) (cs ! ((h + 1) mod 12))" using iff [OF h12] by simp
    show "\<not> inWrapped p (cs ! j) (cs ! ((j + 1) mod 12))" if "0 \<le> j" "j < h" for j
      using iff [of j] that h12 by simp
  qed simp
qed


text \<open>
  Claim C10. For a frame of \<open>calculateHouses\<close> and a longitude from 0 (included) to 360
  (excluded), all twelve cusps are present and the loop of \<open>getHousePosition\<close> returns a
  house \<open>h\<close> from 1 to 12 before it ends, so the final \<open>return 1\<close> is not reached. House
  \<open>h\<close> is the only one whose half-open wrapped interval, from its cusp to the next,
  holds the longitude; a longitude equal to a cusp is placed in the house of that cusp.
\<close>

theorem getHousePosition_equal_houses:
  fixes JD lat lon p :: real
  assumes p: "0 \<le> p" "p < 360"
  defines "hc \<equiv> cusps (calculateHouses JD lat lon)"
  shows "pushCusps hc [1..<13] = Inr (map (cuspOf hc) [1..<13]) \<and>
     (\<exists>h \<in> {1..12}.
        getHousePosition p hc = Inr h \<and>
        houseLoop p (map (cuspOf hc) [1..<13]) 0 = Some h \<and>
        (\<forall>j \<in> {1..12}. inWrapped p (cuspOf hc j) (cuspOf hc (j mod 12 + 1)) \<longleftrightarrow> j = h) \<and>
        (\<forall>j \<in> {1..12}. p = cuspOf hc j \<longrightarrow> j = h))"
proof -
  define a where "a = zodiac_position.longitude (ascendant (calculateHouses JD lat lon))"
  define cs where "cs = map (cuspOf hc) [1..<13]"
  define d where "d = (if a \<le> p then p - a else p - a + 360)"
  define h where "h = nat \<lfloor>d / 30\<rfloor>"
  have a: "0 \<le> a" "a < 360"
    using calculateHouses_asc_range [of JD lat lon] by (simp_all add: a_def)
  have defd: "\<forall>i \<in> set [1..<13]. hc i \<noteq> None"
    unfolding hc_def by (rule calculateHouses_defined)
  have cusp: "cuspOf hc (k + 1) = normalizeAngle (a + real k * 30)" if "k < 12" for k
  proof -
    have "cuspOf hc (k + 1) = normalizeAngle (a + (real (k + 1) - 1) * 30)"
      unfolding hc_def a_def by (rule calculateHouses_cuspOf) (use that in simp_all)
    then show ?thesis by simp
  qed
  have cs: "cs ! k = normalizeAngle (a + real k * 30)" if "k < 12" for k
    unfolding cs_def cuspsArray_nth [OF that] by (rule cusp [OF that])
  have h12: "h < 12"
    unfolding h_def d_def by (rule equal_house_loop(1) [OF a p, where cs = cs]) (rule cs)
  have run: "houseLoop p cs 0 = Some (h + 1)"
    unfolding h_def d_def by (rule equal_house_loop(2) [OF a p]) (rule cs)
  have loop3: "inWrapped p (cs ! k) (cs ! ((k + 1) mod 12)) \<longleftrightarrow> k = h" if "k < 12" for k
    unfolding h_def d_def by (rule equal_house_loop(3) [OF a p _ that]) (rule cs)
  have iff: "inWrapped p (cuspOf hc j) (cuspOf hc (j mod 12 + 1)) \<longleftrightarrow> j = h + 1"
    if j: "j \<in> {1..12}" for j
  proof -
    from j have "1 \<le> j" "j \<le> 12" by simp_all
    then have k: "j - 1 < 12" "j - 1 + 1 = j" by arith+
    have m: "(j - 1 + 1) mod 12 < 12" by simp
    have "cs ! (j - 1) = cuspOf hc j"
      using cs [OF k(1)] cusp [OF k(1)] k(2) by simp
    moreover have "cs ! ((j - 1 + 1) mod 12) = cuspOf hc (j mod 12 + 1)"
      using cs [OF m] cusp [OF m] k(2) by simp
    ultimately show ?thesis using loop3 [OF k(1)] j by auto
  qed
  have at_cusp: "j = h + 1" if j: "j \<in> {1..12}" and e: "p = cuspOf hc j" for j
  proof -
    from j have "1 \<le> j" "j \<le> 12" by simp_all
    then have k: "j - 1 < 12" "j - 1 + 1 = j" by arith+
    have pe: "p = normalizeAngle (a + real (j - 1) * 30)"
      using e cusp [OF k(1)] k(2) by simp
    have "d = real (j - 1) * 30"
      unfolding d_def pe by (rule equal_house_cusp_offset [OF a k(1)])
    then have "real (j - 1) * 30 \<le> (if a \<le> p then p - a else p - a + 360) \<and>
        (if a \<le> p then p - a else p - a + 360) < (real (j - 1) + 1) * 30"
      by (simp add: d_def)
    then have "inWrapped p (normalizeAngle (a + real (j - 1) * 30))
        (normalizeAngle (a + real ((j - 1 + 1) mod 12) * 30))"
      using equal_house_interval [OF a p k(1)] by simp
    then have "inWrapped p (cs ! (j - 1)) (cs ! ((j - 1 + 1) mod 12))"
      using cs [OF k(1)] cs [of "(j - 1 + 1) mod 12"] by simp
    then have "j - 1 = h" using loop3 [OF k(1)] by simp
    then show ?thesis using k(2) by simp
  qed
  have "getHousePosition p hc = Inr (h + 1)"
    using run by (simp add: getHousePosition_loop [OF defd] cs_def)
  moreover have "h + 1 \<in> {1..12}" using h12 by simp
  ultimately have "\<exists>h \<in> {1..12}.
        getHousePosition p hc = Inr h \<and>
        houseLoop p (map (cuspOf hc) [1..<13]) 0 = Some h \<and>
        (\<forall>j \<in> {1..12}. inWrapped p (cuspOf hc j) (cuspOf hc (j mod 12 + 1)) \<longleftrightarrow> j = h) \<and>
        (\<forall>j \<in> {1..12}. p = cuspOf hc j \<longrightarrow> j = h)"
    using run iff at_cusp unfolding cs_def by blast
  then show ?thesis using pushCusps_cuspOf [OF defd] by simp
qed

theorem getHousePosition_equal_houses_witness:
  "(0::real) \<le> 100 \<and> (100::real) < 360 \<and>
   cuspOf (cusps (calculateHouses 2451545 0 (- 10.46061837))) 4 = 90 \<and>
   cuspOf (cusps (calculateHouses 2451545 0 (- 10.46061837))) 5 = 120 \<and>
   getHousePosition 100 (cusps (calculateHouses 2451545 0 (- 10.46061837))) = Inr 4"
proof -
  have c4: "cuspOf (cusps (calculateHouses 2451545 0 (- 10.46061837))) 4 = 90"
    using cusps_example [of 4] by simp
  have c5: "cuspOf (cusps (calculateHouses 2451545 0 (- 10.46061837))) 5 = 120"
    using cusps_example [of 5] by simp
  have w: "inWrapped 100 (cuspOf (cusps (calculateHouses 2451545 0 (- 10.46061837))) 4)
      (cuspOf (cusps (calculateHouses 2451545 0 (- 10.46061837))) (4 mod 12 + 1))"
    using c4 c5 by (simp add: inWrapped_def)
  have r: "(0::real) \<le> 100" "(100::real) < 360" by simp_all
  obtain h where h: "getHousePosition 100 (cusps (calculateHouses 2451545 0 (- 10.46061837))) = Inr h"
    and u: "\<forall>j \<in> {1..12}.
        inWrapped 100 (cuspOf (cusps (calculateHouses 2451545 0 (- 10.46061837))) j)
          (cuspOf (cusps (calculateHouses 2451545 0 (- 10.46061837))) (j mod 12 + 1)) \<longleftrightarrow> j = h"
    using getHousePosition_equal_houses [OF r, of 2451545 0 "- 10.46061837"] by blast
  have "inWrapped 100 (cuspOf (cusps (calculateHouses 2451545 0 (- 10.46061837))) 4)
      (cuspOf (cusps (calculateHouses 2451545 0 (- 10.46061837))) (4 mod 12 + 1)) \<longleftrightarrow> 4 = h"
    using u by (rule bspec) simp
  with w have "h = 4" by simp
  with h c4 c5 show ?thesis by simp
qed


section \<open>Julian Day\<close>

lemma floor_quarter_days: "\<lfloor>365.25 * real_of_int k\<rfloor> = 365 * k + k div 4"
proof -
  have "365.25 * real_of_int k = real_of_int (1461 * k) / real_of_int 4" by simp
  then have "\<lfloor>365.25 * real_of_int k\<rfloor> = (1461 * k) div 4"
    by (simp only: floor_divide_of_int_eq)
  also have "\<dots> = 365 * k + k div 4"
  proof -
    have "1461 * k = k + 365 * k * 4" by simp
    then show ?thesis by (simp only: div_mult_self1)
  qed
  finally show ?thesis .
qed

lemma floor_month_term: "\<lfloor>30.6001 * (real_of_int M + 1)\<rfloor> = monthTerm M"
proof -
  have "30.6001 * (real_of_int M + 1) = real_of_int (306001 * (M + 1)) / real_of_int 10000"
    by simp
  then show ?thesis by (simp only: floor_divide_of_int_eq monthTerm_def)
qed

lemma floor_div_int: "\<lfloor>real_of_int k / 100\<rfloor> = k div 100" "\<lfloor>real_of_int k / 4\<rfloor> = k div 4"
  using floor_divide_of_int_eq [of k 100, where ?'a = real]
    floor_divide_of_int_eq [of k 4, where ?'a = real] by simp_all

lemma div_100_div_4: "(k::int) div 100 div 4 = k div 400"
  using zdiv_zmult2_eq [of 4 k 100] by simp

lemma div_4_shift: "(k + 4716) div 4 = k div 4 + (1179::int)"
  by presburger

lemma dateToJulianDay_int:
  "dateToJulianDay (of_int y) (of_int m) (of_int d) h =
     of_int (dayCount (shiftYear y m) + monthTerm (shiftMonth m) + d) + 1722521 + h / 24 - 1524.5"
proof (cases "m \<le> 2")
  case True
  have y: "real_of_int y - 1 = real_of_int (y - 1)" by simp
  have m: "real_of_int m + 12 = real_of_int (m + 12)" by simp
  have k: "real_of_int (y - 1) + 4716 = real_of_int (y - 1 + 4716)" by simp
  show ?thesis
    using True unfolding dateToJulianDay_def Let_def
    apply (simp only: of_int_le_numeral_iff if_True split y m k floor_quarter_days
        floor_month_term floor_div_int div_100_div_4 div_4_shift shiftYear_def shiftMonth_def dayCount_def)
    apply simp
    done
next
  case False
  have k: "real_of_int y + 4716 = real_of_int (y + 4716)" by simp
  show ?thesis
    using False unfolding dateToJulianDay_def Let_def
    apply (simp only: of_int_le_numeral_iff if_False split k floor_quarter_days
        floor_month_term floor_div_int div_100_div_4 div_4_shift shiftYear_def shiftMonth_def dayCount_def)
    apply simp
    done
qed


lemma div_step:
  fixes y n :: int
  assumes n: "0 < n"
  shows "y div n - (y - 1) div n = (if y mod n = 0 then 1 else 0)"
proof -
  define q where "q = y div n"
  define r where "r = y mod n"
  have y: "y = n * q + r" by (simp add: q_def r_def)
  have r: "0 \<le> r" "r < n" using n by (simp_all add: r_def)
  show ?thesis
  proof (cases "r = 0")
    case True
    have "y - 1 = n * (q - 1) + (n - 1)" using y True by (simp add: algebra_simps)
    then have "(y - 1) div n = q - 1"
      by (rule int_div_pos_eq) (use n in simp_all)
    then show ?thesis using True by (simp add: q_def r_def)
  next
    case False
    have "y - 1 = n * q + (r - 1)" using y by simp
    then have "(y - 1) div n = q"
      by (rule int_div_pos_eq) (use r False in simp_all)
    then show ?thesis using False by (simp add: q_def r_def)
  qed
qed

lemma leap_divides:
  fixes y :: int
  shows "y mod 100 = 0 \<Longrightarrow> y mod 4 = 0" and "y mod 400 = 0 \<Longrightarrow> y mod 100 = 0"
proof -
  have "y mod 100 mod 4 = y mod 4" by (rule mod_mod_cancel) simp
  then show "y mod 100 = 0 \<Longrightarrow> y mod 4 = 0" by simp
  have "y mod 400 mod 100 = y mod 100" by (rule mod_mod_cancel) simp
  then show "y mod 400 = 0 \<Longrightarrow> y mod 100 = 0" by simp
qed

lemma leap_count:
  fixes A B C :: bool
  assumes "C \<Longrightarrow> B" "B \<Longrightarrow> A"
  shows "365 + (if A then 1 else 0) - (if B then 1 else 0) + (if C then 1 else 0) =
         (if A \<and> (\<not> B \<or> C) then 366 else (365::int))"
  using assms by (cases A; cases B; cases C; simp)

lemma dayCount_step: "dayCount y - dayCount (y - 1) = (if InLeapYear y then 366 else 365)"
proof -
  define a where "a = y div 4"
  define b where "b = y div 100"
  define c where "c = y div 400"
  define a' where "a' = (y - 1) div 4"
  define b' where "b' = (y - 1) div 100"
  define c' where "c' = (y - 1) div 400"
  have s4: "a - a' = (if y mod 4 = 0 then 1 else 0)"
    unfolding a_def a'_def by (rule div_step) simp
  have s100: "b - b' = (if y mod 100 = 0 then 1 else 0)"
    unfolding b_def b'_def by (rule div_step) simp
  have s400: "c - c' = (if y mod 400 = 0 then 1 else 0)"
    unfolding c_def c'_def by (rule div_step) simp
  have "dayCount y - dayCount (y - 1) =
      (365 * y + a - b + c) - (365 * (y - 1) + a' - b' + c')"
    unfolding dayCount_def a_def b_def c_def a'_def b'_def c'_def ..
  also have "\<dots> = 365 + (a - a') - (b - b') + (c - c')" by simp
  also have "\<dots> = (if InLeapYear y then 366 else 365)"
    unfolding s4 s100 s400 InLeapYear_def
    by (rule leap_count) (erule leap_divides)+
  finally show ?thesis .
qed

lemma dayCount_mono:
  assumes "y \<le> y'"
  shows "dayCount y \<le> dayCount y'"
proof (cases "y = y'")
  case True
  then show ?thesis by simp
next
  case False
  then have lt: "y + 1 \<le> y'" using assms by simp
  define a where "a = y div 4"
  define b where "b = y div 100"
  define c where "c = y div 400"
  define a' where "a' = y' div 4"
  define b' where "b' = y' div 100"
  define c' where "c' = y' div 400"
  have a: "4 * a \<le> y" "y < 4 * a + 4"
    unfolding a_def by (rule int_div_bounds, simp)+
  have b: "100 * b \<le> y" "y < 100 * b + 100"
    unfolding b_def by (rule int_div_bounds, simp)+
  have c: "400 * c \<le> y" "y < 400 * c + 400"
    unfolding c_def by (rule int_div_bounds, simp)+
  have a': "4 * a' \<le> y'" "y' < 4 * a' + 4"
    unfolding a'_def by (rule int_div_bounds, simp)+
  have b': "100 * b' \<le> y'" "y' < 100 * b' + 100"
    unfolding b'_def by (rule int_div_bounds, simp)+
  have c': "400 * c' \<le> y'" "y' < 400 * c' + 400"
    unfolding c'_def by (rule int_div_bounds, simp)+
  have "365 * y + a - b + c \<le> 365 * y' + a' - b' + c'"
    using lt a b c a' b' c' by linarith
  then show ?thesis
    by (simp add: dayCount_def a_def b_def c_def a'_def b'_def c'_def)
qed

lemma monthTerm_mono: "M \<le> M' \<Longrightarrow> monthTerm M \<le> monthTerm M'"
  unfolding monthTerm_def by (intro zdiv_mono1) simp_all

lemma month_cases:
  fixes m :: int
  assumes "1 \<le> m" "m \<le> 12"
  shows "m = 1 \<or> m = 2 \<or> m = 3 \<or> m = 4 \<or> m = 5 \<or> m = 6 \<or> m = 7 \<or> m = 8 \<or> m = 9 \<or>
         m = 10 \<or> m = 11 \<or> m = 12"
  using assms by arith

lemma valid_shifted:
  assumes v: "validDate y m d"
  shows "3 \<le> shiftMonth m" and "shiftMonth m \<le> 14" and "1 \<le> d"
    and "shiftMonth m \<le> 13 \<Longrightarrow> monthTerm (shiftMonth m) + d \<le> monthTerm (shiftMonth m + 1)"
    and "123 \<le> monthTerm (shiftMonth m) + d"
    and "dayCount (shiftYear y m) + monthTerm (shiftMonth m) + d
           \<le> dayCount (shiftYear y m + 1) + 122"
proof -
  have r: "1 \<le> m" "m \<le> 12" and d: "1 \<le> d" "d \<le> monthDays y ! nat (m - 1)"
    using v by (simp_all add: validDate_def)
  note c = month_cases [OF r]
  show "3 \<le> shiftMonth m" "shiftMonth m \<le> 14" "1 \<le> d"
    using r d by (simp_all add: shiftMonth_def)
  show "shiftMonth m \<le> 13 \<Longrightarrow> monthTerm (shiftMonth m) + d \<le> monthTerm (shiftMonth m + 1)"
    using c d by (elim disjE) (simp_all add: shiftMonth_def monthTerm_def monthDays_def)
  show "123 \<le> monthTerm (shiftMonth m) + d"
    using c d by (elim disjE) (simp_all add: shiftMonth_def monthTerm_def)
  have step: "dayCount y = dayCount (y - 1) + (if InLeapYear y then 366 else 365)"
    using dayCount_step [of y] by simp
  have step': "dayCount (y + 1) \<ge> dayCount y + 365"
    using dayCount_step [of "y + 1"] by (simp split: if_splits)
  show "dayCount (shiftYear y m) + monthTerm (shiftMonth m) + d
           \<le> dayCount (shiftYear y m + 1) + 122"
    using c d step step'
    by (elim disjE)
      (simp_all add: shiftYear_def shiftMonth_def monthTerm_def monthDays_def split: if_splits)
qed


lemma shifted_order:
  assumes "1 \<le> m1" "m1 \<le> 12" "1 \<le> m2" "m2 \<le> 12"
    and "y1 < y2 \<or> (y1 = y2 \<and> m1 < m2)"
  shows "shiftYear y1 m1 < shiftYear y2 m2 \<or>
         (shiftYear y1 m1 = shiftYear y2 m2 \<and> shiftMonth m1 < shiftMonth m2)"
  using assms by (auto simp: shiftYear_def shiftMonth_def)

lemma dayNumber_strict_mono:
  assumes v1: "validDate y1 m1 d1" and v2: "validDate y2 m2 d2"
    and lt: "y1 < y2 \<or> (y1 = y2 \<and> (m1 < m2 \<or> (m1 = m2 \<and> d1 < d2)))"
  shows "dayCount (shiftYear y1 m1) + monthTerm (shiftMonth m1) + d1
         < dayCount (shiftYear y2 m2) + monthTerm (shiftMonth m2) + d2"
proof -
  define Y1 where "Y1 = shiftYear y1 m1"
  define M1 where "M1 = shiftMonth m1"
  define Y2 where "Y2 = shiftYear y2 m2"
  define M2 where "M2 = shiftMonth m2"
  note s1 = valid_shifted [OF v1, folded Y1_def M1_def]
  note s2 = valid_shifted [OF v2, folded Y2_def M2_def]
  have r: "1 \<le> m1" "m1 \<le> 12" "1 \<le> m2" "m2 \<le> 12"
    using v1 v2 by (simp_all add: validDate_def)
  consider (year) "Y1 < Y2" | (month) "Y1 = Y2" "M1 < M2" | (day) "Y1 = Y2" "M1 = M2" "d1 < d2"
    using lt shifted_order [OF r, of y1 y2]
    unfolding Y1_def Y2_def M1_def M2_def by blast
  then have "dayCount Y1 + monthTerm M1 + d1 < dayCount Y2 + monthTerm M2 + d2"
  proof cases
    case year
    then have "dayCount (Y1 + 1) \<le> dayCount Y2" by (intro dayCount_mono) simp
    then show ?thesis using s1(6) s2(5) by linarith
  next
    case month
    then have "M1 \<le> 13" using s2(2) by simp
    then have "monthTerm M1 + d1 \<le> monthTerm (M1 + 1)" by (rule s1(4))
    moreover have "monthTerm (M1 + 1) \<le> monthTerm M2"
      using month(2) by (intro monthTerm_mono) simp
    ultimately have "monthTerm M1 + d1 < monthTerm M2 + d2" using s2(3) by linarith
    then show ?thesis using month(1) by simp
  next
    case day
    then show ?thesis by simp
  qed
  then show ?thesis unfolding Y1_def M1_def Y2_def M2_def .
qed

subsection \<open>The Julian Day in binary64\<close>

lemma fl_small_int: "\<bar>n\<bar> \<le> 1000000000000 \<Longrightarrow> fl (of_int n) = of_int n"
  by (rule fl_of_int) simp

lemma fl_quarters:
  assumes "\<bar>n\<bar> \<le> 1000000000000"
  shows "fl (of_int n / 4) = of_int n / 4"
proof -
  have "fl (of_int n * 2 powi (- 2)) = of_int n * 2 powi (- 2)"
    by (rule fl_exact) (use assms in simp_all)
  then show ?thesis by (simp add: power_int_minus field_simps)
qed

lemma fl_halves:
  assumes "\<bar>n\<bar> \<le> 1000000000000"
  shows "fl (of_int n / 2) = of_int n / 2"
proof -
  have "fl (of_int n * 2 powi (- 1)) = of_int n * 2 powi (- 1)"
    by (rule fl_exact) (use assms in simp_all)
  then show ?thesis by (simp add: field_simps)
qed

lemma floor_fl_div_100:
  assumes "\<bar>Y\<bar> \<le> 1000001"
  shows "\<lfloor>fl (of_int Y / 100)\<rfloor> = Y div 100"
proof (rule floor_unique)
  define q where "q = Y div 100"
  have qb: "100 * q \<le> Y" "Y < 100 * q + 100"
    unfolding q_def by (rule int_div_bounds, simp)+
  have qa: "\<bar>q\<bar> \<le> 1000000000000" using qb assms by linarith
  have lo: "real_of_int q \<le> of_int Y / 100" using qb(1) by (simp add: field_simps)
  have "fl (of_int q) \<le> fl (of_int Y / 100)" using lo by (rule fl_mono)
  then show "of_int (Y div 100) \<le> fl (of_int Y / 100)"
    unfolding q_def [symmetric] by (simp add: fl_small_int [OF qa])
  have hi: "real_of_int Y / 100 \<le> of_int q + 99 / 100"
  proof -
    have "Y \<le> 100 * q + 99" using qb(2) by simp
    then have "real_of_int Y \<le> 100 * real_of_int q + 99" by linarith
    then show ?thesis by (simp add: field_simps)
  qed
  have ab: "\<bar>real_of_int Y / 100\<bar> < 2 powi 14"
  proof -
    have "\<bar>real_of_int Y\<bar> \<le> 1000001" using assms by linarith
    then show ?thesis by simp
  qed
  have "\<bar>fl (of_int Y / 100) - of_int Y / 100\<bar> \<le> 2 powi (14 - 54)"
    by (rule fl_error_bound [OF ab]) simp
  moreover have "(2::real) powi (14 - 54) \<le> 1 / 1000" by (simp add: power_int_minus)
  ultimately have "fl (of_int Y / 100) \<le> of_int Y / 100 + 1 / 1000" by linarith
  then show "fl (of_int Y / 100) < of_int (Y div 100) + 1"
    unfolding q_def [symmetric] using hi by linarith
qed


lemma floor_fl_product:
  fixes c t :: real and n :: int
  assumes c: "\<bar>c - 30.6001\<bar> \<le> 1 / 10 ^ 12"
    and t: "4 \<le> t" "t \<le> 15"
    and x: "of_int n + 1 / 10000 \<le> 30.6001 * t" "30.6001 * t \<le> of_int n + 9 / 10"
  shows "\<lfloor>fl (c * t)\<rfloor> = n"
proof (rule floor_unique)
  have "\<bar>(c - 30.6001) * t\<bar> = \<bar>c - 30.6001\<bar> * t" using t by (simp add: abs_mult)
  also have "\<dots> \<le> 1 / 10 ^ 12 * 15"
    using c t by (intro mult_mono) simp_all
  finally have p: "\<bar>c * t - 30.6001 * t\<bar> \<le> 15 / 10 ^ 12"
    by (simp add: left_diff_distrib)
  have "30.6001 * t \<le> 30.6001 * 15" using t by simp
  moreover have "0 \<le> 30.6001 * t" using t by simp
  ultimately have "\<bar>c * t\<bar> < 512" using p by (simp add: abs_if split: if_splits)
  then have ab: "\<bar>c * t\<bar> < 2 powi 9" by simp
  have "\<bar>fl (c * t) - c * t\<bar> \<le> 2 powi (9 - 54)"
    by (rule fl_error_bound [OF ab]) simp
  moreover have "(2::real) powi (9 - 54) \<le> 1 / 10 ^ 12" by (simp add: power_int_minus)
  ultimately have e: "\<bar>fl (c * t) - c * t\<bar> \<le> 1 / 10 ^ 12" by linarith
  show "of_int n \<le> fl (c * t)" using e p x by (simp add: abs_if split: if_splits)
  show "fl (c * t) < of_int n + 1" using e p x by (simp add: abs_if split: if_splits)
qed

lemma literal_30_6001: "\<bar>fl 30.6001 - 30.6001\<bar> \<le> 1 / 10 ^ 12"
proof -
  have ab: "\<bar>30.6001 :: real\<bar> < 2 powi 5" by simp
  have "\<bar>fl 30.6001 - 30.6001\<bar> \<le> 2 powi (5 - 54)"
    by (rule fl_error_bound [OF ab]) simp
  moreover have "(2::real) powi (5 - 54) \<le> 1 / 10 ^ 12" by (simp add: power_int_minus)
  ultimately show ?thesis by linarith
qed

lemma shifted_month_cases:
  fixes M :: int
  assumes "3 \<le> M" "M \<le> 14"
  shows "M = 3 \<or> M = 4 \<or> M = 5 \<or> M = 6 \<or> M = 7 \<or> M = 8 \<or> M = 9 \<or> M = 10 \<or>
         M = 11 \<or> M = 12 \<or> M = 13 \<or> M = 14"
  using assms by arith

lemma floor_fl_month:
  assumes M: "3 \<le> M" "M \<le> 14"
  shows "\<lfloor>fl (fl 30.6001 * fl (of_int M + 1))\<rfloor> = monthTerm M"
proof -
  have i: "real_of_int M + 1 = real_of_int (M + 1)" by simp
  have f: "fl (of_int M + 1) = of_int (M + 1)"
    unfolding i by (rule fl_small_int) (use M in simp)
  have t: "4 \<le> real_of_int (M + 1)" "real_of_int (M + 1) \<le> 15" using M by simp_all
  have x: "of_int (monthTerm M) + 1 / 10000 \<le> 30.6001 * real_of_int (M + 1)"
    "30.6001 * real_of_int (M + 1) \<le> of_int (monthTerm M) + 9 / 10"
    using shifted_month_cases [OF M] by (elim disjE; simp add: monthTerm_def)+
  show ?thesis
    unfolding f by (rule floor_fl_product [OF literal_30_6001 t x])
qed


lemma dateToJulianDay64_form:
  assumes v: "validDate y m d" and yb: "\<bar>y\<bar> \<le> 1000000"
  defines "Y \<equiv> shiftYear y m"
  defines "M \<equiv> shiftMonth m"
  defines "N \<equiv> 365 * (Y + 4716) + (Y + 4716) div 4 + monthTerm M + d"
  defines "B \<equiv> 2 - Y div 100 + Y div 400"
  shows "dateToJulianDay64 (of_int y) (of_int m) (of_int d) h =
         fl (fl (fl (of_int N + fl (h / 24)) + of_int B) - 1524.5)"
    and "\<bar>N\<bar> \<le> 400000000" and "\<bar>B\<bar> \<le> 20000"
proof -
  have r: "1 \<le> m" "m \<le> 12" "1 \<le> d" "d \<le> monthDays y ! nat (m - 1)"
    using v by (simp_all add: validDate_def)
  have d31: "d \<le> 31"
    using month_cases [OF r(1,2)] r(4)
    by (elim disjE) (simp_all add: monthDays_def split: if_splits)
  have Yb: "\<bar>Y\<bar> \<le> 1000001" using yb unfolding Y_def shiftYear_def by (cases "m \<le> 2"; simp; linarith)
  have Mb: "3 \<le> M" "M \<le> 14" using r by (simp_all add: M_def shiftMonth_def)
  define A where "A = Y div 100"
  define k where "k = Y + 4716"
  have Ab: "100 * A \<le> Y" "Y < 100 * A + 100"
    unfolding A_def by (rule int_div_bounds, simp)+
  have A4: "4 * (A div 4) \<le> A" "A < 4 * (A div 4) + 4"
    by (rule int_div_bounds, simp)+
  have k4: "4 * (k div 4) \<le> k" "k < 4 * (k div 4) + 4"
    by (rule int_div_bounds, simp)+
  have mt: "122 \<le> monthTerm M" "monthTerm M \<le> 459"
    using monthTerm_mono [OF Mb(1)] monthTerm_mono [OF Mb(2)] by (simp_all add: monthTerm_def)
  have Y400: "Y div 400 = A div 4" by (simp add: A_def div_100_div_4)
  show Nb: "\<bar>N\<bar> \<le> 400000000"
    unfolding N_def k_def [symmetric] using Yb k4 mt r(3) d31 by (simp add: k_def)
  show Bb: "\<bar>B\<bar> \<le> 20000"
    unfolding B_def Y400 A_def [symmetric] using Yb Ab A4 by linarith
  have e1: "(if real_of_int m \<le> 2 then (fl (of_int y - 1), fl (of_int m + 12))
             else (of_int y, of_int m)) = (real_of_int Y, real_of_int M)"
  proof (cases "m \<le> 2")
    case True
    have "fl (real_of_int (y - 1)) = of_int (y - 1)"
      by (rule fl_small_int) (use yb in simp)
    moreover have "fl (real_of_int (m + 12)) = of_int (m + 12)"
      by (rule fl_small_int) (use r in simp)
    ultimately show ?thesis using True by (simp add: Y_def M_def shiftYear_def shiftMonth_def)
  next
    case False
    then show ?thesis by (simp add: Y_def M_def shiftYear_def shiftMonth_def)
  qed
  have eA: "\<lfloor>fl (real_of_int Y / 100)\<rfloor> = A"
    unfolding A_def by (rule floor_fl_div_100 [OF Yb])
  have eA4: "\<lfloor>fl (real_of_int A / 4)\<rfloor> = A div 4"
  proof -
    have f: "fl (real_of_int A / 4) = real_of_int A / 4"
      by (rule fl_quarters) (use Ab Yb in linarith)
    show ?thesis unfolding f by (rule floor_div_int(2))
  qed
  have eB: "fl (fl (2 - real_of_int A) + real_of_int (A div 4)) = real_of_int B"
  proof -
    have a: "fl (real_of_int (2 - A)) = of_int (2 - A)"
      by (rule fl_small_int) (use Ab Yb in linarith)
    have b: "fl (real_of_int (2 - A + A div 4)) = of_int (2 - A + A div 4)"
      by (rule fl_small_int) (use Ab A4 Yb in linarith)
    show ?thesis using a b by (simp add: B_def Y400 A_def)
  qed
  have eF1: "\<lfloor>fl (365.25 * fl (real_of_int Y + 4716))\<rfloor> = 365 * k + k div 4"
  proof -
    have a: "fl (real_of_int (Y + 4716)) = of_int (Y + 4716)"
      by (rule fl_small_int) (use Yb in linarith)
    have b: "fl (real_of_int (1461 * k) / 4) = real_of_int (1461 * k) / 4"
      by (rule fl_quarters) (use Yb in \<open>simp add: k_def\<close>)
    have c: "365.25 * real_of_int k = real_of_int (1461 * k) / 4" by simp
    have i: "real_of_int Y + 4716 = real_of_int (Y + 4716)" by simp
    have "\<lfloor>fl (365.25 * real_of_int k)\<rfloor> = 365 * k + k div 4"
      unfolding c b unfolding c [symmetric] by (rule floor_quarter_days)
    then show ?thesis unfolding i a k_def .
  qed
  have eF2: "\<lfloor>fl (fl 30.6001 * fl (real_of_int M + 1))\<rfloor> = monthTerm M"
    by (rule floor_fl_month [OF Mb])
  have eS: "fl (fl (real_of_int (365 * k + k div 4) + real_of_int (monthTerm M)) + real_of_int d)
      = real_of_int N"
  proof -
    have kb: "\<bar>k\<bar> \<le> 1004717" using Yb unfolding k_def by linarith
    have "\<bar>365 * k + k div 4 + monthTerm M\<bar> \<le> 1000000000000"
      using kb k4 mt by linarith
    then have a: "fl (real_of_int (365 * k + k div 4 + monthTerm M)) =
        of_int (365 * k + k div 4 + monthTerm M)"
      by (rule fl_small_int)
    have b: "fl (real_of_int N) = of_int N"
      by (rule fl_small_int) (use Nb in simp)
    show ?thesis using a b by (simp add: N_def k_def)
  qed
  show "dateToJulianDay64 (of_int y) (of_int m) (of_int d) h =
         fl (fl (fl (of_int N + fl (h / 24)) + of_int B) - 1524.5)"
    unfolding dateToJulianDay64_def e1 Let_def split eA eA4 eB eF1 eF2 eS ..
qed

lemma fl_one: "fl 1 = 1"
  using fl_of_int [of 1] by simp

lemma hour_fraction:
  assumes "0 \<le> h" "h < 24"
  shows "0 \<le> fl (h / 24)" and "fl (h / 24) \<le> 1"
    and "\<bar>fl (h / 24) - h / 24\<bar> \<le> 2 powi (- 54)"
proof -
  show "0 \<le> fl (h / 24)" using assms(1) by (intro fl_nonneg) simp
  have "fl (h / 24) \<le> fl 1" using assms(2) by (intro fl_mono) simp
  then show "fl (h / 24) \<le> 1" by (simp add: fl_one)
  have "\<bar>h / 24\<bar> < 2 powi 0" using assms by simp
  then have "\<bar>fl (h / 24) - h / 24\<bar> \<le> 2 powi (0 - 54)"
    by (rule fl_error_bound) simp
  then show "\<bar>fl (h / 24) - h / 24\<bar> \<le> 2 powi (- 54)" by simp
qed

text \<open>The sum of \<open>dateToJulianDay64\<close> after its integer terms.\<close>

lemma julian_sum_mono_hour:
  assumes "h1 \<le> h2"
  shows "fl (fl (fl (of_int N + fl (h1 / 24)) + of_int B) - 1524.5)
         \<le> fl (fl (fl (of_int N + fl (h2 / 24)) + of_int B) - 1524.5)"
proof -
  have "fl (h1 / 24) \<le> fl (h2 / 24)" using assms by (intro fl_mono) simp
  then have "fl (of_int N + fl (h1 / 24)) \<le> fl (of_int N + fl (h2 / 24))"
    by (intro fl_mono) simp
  then have "fl (fl (of_int N + fl (h1 / 24)) + of_int B)
      \<le> fl (fl (of_int N + fl (h2 / 24)) + of_int B)"
    by (intro fl_mono) simp
  then show ?thesis by (intro fl_mono) simp
qed

lemma julian_sum_mono_day:
  assumes N1: "\<bar>N1\<bar> \<le> 400000000" and B1: "\<bar>B1\<bar> \<le> 20000"
    and N2: "\<bar>N2\<bar> \<le> 400000000" and B2: "\<bar>B2\<bar> \<le> 20000"
    and f1: "f1 \<le> 1" and f2: "0 \<le> f2"
    and day: "N1 + B1 + 1 \<le> N2 + B2"
  shows "fl (fl (fl (of_int N1 + f1) + of_int B1) - 1524.5)
         \<le> fl (fl (fl (of_int N2 + f2) + of_int B2) - 1524.5)"
proof -
  have i1: "fl (real_of_int (N1 + 1)) = of_int (N1 + 1)"
    by (rule fl_small_int) (use N1 in linarith)
  have i2: "fl (real_of_int (N1 + 1 + B1)) = of_int (N1 + 1 + B1)"
    by (rule fl_small_int) (use N1 B1 in linarith)
  have i3: "fl (real_of_int N2) = of_int N2"
    by (rule fl_small_int) (use N2 in linarith)
  have i4: "fl (real_of_int (N2 + B2)) = of_int (N2 + B2)"
    by (rule fl_small_int) (use N2 B2 in linarith)
  have "fl (of_int N1 + f1) \<le> fl (real_of_int (N1 + 1))"
    using f1 by (intro fl_mono) simp
  then have a: "fl (of_int N1 + f1) \<le> of_int (N1 + 1)" unfolding i1 .
  have "fl (fl (of_int N1 + f1) + of_int B1) \<le> fl (real_of_int (N1 + 1 + B1))"
    using a by (intro fl_mono) simp
  then have b: "fl (fl (of_int N1 + f1) + of_int B1) \<le> of_int (N1 + 1 + B1)" unfolding i2 .
  have "fl (real_of_int N2) \<le> fl (of_int N2 + f2)"
    using f2 by (intro fl_mono) simp
  then have c: "of_int N2 \<le> fl (of_int N2 + f2)" unfolding i3 .
  have "fl (real_of_int (N2 + B2)) \<le> fl (fl (of_int N2 + f2) + of_int B2)"
    using c by (intro fl_mono) simp
  then have d: "of_int (N2 + B2) \<le> fl (fl (of_int N2 + f2) + of_int B2)" unfolding i4 .
  have "real_of_int (N1 + 1 + B1) \<le> real_of_int (N2 + B2)" using day by linarith
  then have "fl (fl (of_int N1 + f1) + of_int B1) \<le> fl (fl (of_int N2 + f2) + of_int B2)"
    using b d by linarith
  then show ?thesis by (intro fl_mono) simp
qed

lemma julian_sum_error:
  assumes N: "\<bar>N\<bar> \<le> 400000000" and B: "\<bar>B\<bar> \<le> 20000"
    and h: "0 \<le> h" "h < 24"
  shows "\<bar>fl (fl (fl (of_int N + fl (h / 24)) + of_int B) - 1524.5) -
          (of_int (N + B) + h / 24 - 1524.5)\<bar> \<le> 2 powi (- 23)"
proof -
  define f where "f = fl (h / 24)"
  define s1 where "s1 = fl (of_int N + f)"
  define s2 where "s2 = fl (s1 + of_int B)"
  define s3 where "s3 = fl (s2 - 1524.5)"
  note hf = hour_fraction [OF h, folded f_def]
  have rN: "\<bar>real_of_int N\<bar> \<le> 400000000" using N by linarith
  have rB: "\<bar>real_of_int B\<bar> \<le> 20000" using B by linarith
  have p29: "(2::real) powi 29 = 536870912" by simp
  have e25: "(2::real) powi (29 - 54) = 1 / 33554432" by (simp add: power_int_minus field_simps)
  have e54: "(2::real) powi (- 54) \<le> 1 / 33554432" by (simp add: power_int_minus field_simps)
  have e23: "(2::real) powi (- 23) = 4 / 33554432" by (simp add: power_int_minus field_simps)
  have a1: "\<bar>of_int N + f\<bar> < 2 powi 29" unfolding p29 using rN hf(1,2) by linarith
  have d1: "\<bar>s1 - (of_int N + f)\<bar> \<le> 1 / 33554432"
    unfolding s1_def e25 [symmetric] by (rule fl_error_bound [OF a1]) simp
  have a2: "\<bar>s1 + of_int B\<bar> < 2 powi 29" unfolding p29 using rN rB hf(1,2) d1 by linarith
  have d2: "\<bar>s2 - (s1 + of_int B)\<bar> \<le> 1 / 33554432"
    unfolding s2_def e25 [symmetric] by (rule fl_error_bound [OF a2]) simp
  have a3: "\<bar>s2 - 1524.5\<bar> < 2 powi 29"
    unfolding p29 using rN rB hf(1,2) d1 d2 by linarith
  have d3: "\<bar>s3 - (s2 - 1524.5)\<bar> \<le> 1 / 33554432"
    unfolding s3_def e25 [symmetric] by (rule fl_error_bound [OF a3]) simp
  have "\<bar>s3 - (of_int (N + B) + h / 24 - 1524.5)\<bar> \<le> 4 / 33554432"
    using d1 d2 d3 hf(3) e54 by (simp only: of_int_add)
  then show ?thesis unfolding e23 s3_def s2_def s1_def f_def .
qed

lemma day_number_link:
  "365 * (Y + 4716) + (Y + 4716) div 4 + T + d + (2 - Y div 100 + Y div 400) =
   dayCount Y + T + d + 1722521"
  by (simp add: dayCount_def div_4_shift)

text \<open>
  Claim C5 says that of two instants the earlier one has the strictly smaller Julian Day.
  On 1 January 2024 the hours 0 and \<open>1e-9\<close> (a binary64 value) are two such instants,
  and the code gives both the Julian Day 2460310.5: the hour over 24 is less than half the
  spacing of binary64 values near 2461848, and the sum rounds it away.
\<close>

theorem dateToJulianDay64_not_strict:
  "validDate 2024 1 1 \<and>
   civilBefore (2024, 1, 1, 0) (2024, 1, 1, 4835703278458517 / 2 ^ 82) \<and>
   fl (4835703278458517 / 2 ^ 82) = 4835703278458517 / 2 ^ 82 \<and>
   dateToJulianDay64 2024 1 1 0 = 2460310.5 \<and>
   dateToJulianDay64 2024 1 1 (4835703278458517 / 2 ^ 82) = 2460310.5 \<and>
   \<not> dateToJulianDay64 2024 1 1 0 < dateToJulianDay64 2024 1 1 (4835703278458517 / 2 ^ 82)"
proof -
  have v: "validDate 2024 1 1"
    by (simp add: validDate_def monthDays_def InLeapYear_def)
  have c: "civilBefore (2024, 1, 1, 0) (2024, 1, 1, 4835703278458517 / 2 ^ 82)"
    by (simp add: civilBefore_def)
  have d: "fl (4835703278458517 / 2 ^ 82) = 4835703278458517 / 2 ^ 82"
    by (subst fl_eval [of "- 30"]) (simp_all add: roundHalfEven_def)
  have form: "dateToJulianDay64 2024 1 1 h =
      fl (fl (fl (2461848 + fl (h / 24)) + - 13) - 1524.5)" for h
    using dateToJulianDay64_form(1) [OF v, of h]
    by (simp add: shiftYear_def shiftMonth_def monthTerm_def)
  have i1: "fl 2461848 = 2461848" using fl_small_int [of 2461848] by simp
  have i2: "fl 2461835 = 2461835" using fl_small_int [of 2461835] by simp
  have i3: "fl (2460310.5) = 2460310.5" using fl_halves [of 4920621] by simp
  have tail: "fl (fl (2461848 + - 13) - 1524.5) = 2460310.5"
    using i2 i3 by simp
  have z: "dateToJulianDay64 2024 1 1 0 = 2460310.5"
    unfolding form using i1 tail by (simp add: fl_0)
  have f: "fl (4835703278458517 / 2 ^ 82 / 24) = 6447604371278023 / 2 ^ 87"
    by (subst fl_eval [of "- 35"]) (simp_all add: roundHalfEven_def)
  have s: "fl (2461848 + 6447604371278023 / 2 ^ 87) = 2461848"
    by (subst fl_eval [of 21]) (simp_all add: roundHalfEven_def)
  have n: "dateToJulianDay64 2024 1 1 (4835703278458517 / 2 ^ 82) = 2460310.5"
    unfolding form f s by (rule tail)
  show ?thesis using v c d z n by simp
qed

text \<open>
  Claim C5, amended. \<open>dateToJulianDay\<close> is monotonic: of two instants of the proleptic
  Gregorian calendar, each a valid date in a year within a million years of year 0 with an
  hour from 0 (included) to 24 (excluded), the earlier one has a Julian Day that is less
  than or equal to the one of the later, also across the ends of months and years. The
  computed Julian Day is within \<open>2 powi (-23)\<close> day of the value of the formula in exact
  arithmetic, and it is strictly smaller for the earlier instant when the two instants
  are at least one second apart.
\<close>

theorem dateToJulianDay64_monotonic:
  assumes v1: "validDate y1 m1 d1" and v2: "validDate y2 m2 d2"
    and y1: "\<bar>y1\<bar> \<le> 1000000" and y2: "\<bar>y2\<bar> \<le> 1000000"
    and h1: "0 \<le> h1" "h1 < 24" and h2: "0 \<le> h2" "h2 < 24"
    and lt: "civilBefore (y1, m1, d1, h1) (y2, m2, d2, h2)"
  shows "dateToJulianDay64 (of_int y1) (of_int m1) (of_int d1) h1
           \<le> dateToJulianDay64 (of_int y2) (of_int m2) (of_int d2) h2 \<and>
         \<bar>dateToJulianDay64 (of_int y1) (of_int m1) (of_int d1) h1 -
          dateToJulianDay (of_int y1) (of_int m1) (of_int d1) h1\<bar> \<le> 2 powi (- 23) \<and>
         \<bar>dateToJulianDay64 (of_int y2) (of_int m2) (of_int d2) h2 -
          dateToJulianDay (of_int y2) (of_int m2) (of_int d2) h2\<bar> \<le> 2 powi (- 23) \<and>
         (1 / 86400 \<le> dateToJulianDay (of_int y2) (of_int m2) (of_int d2) h2 -
                        dateToJulianDay (of_int y1) (of_int m1) (of_int d1) h1
          \<longrightarrow> dateToJulianDay64 (of_int y1) (of_int m1) (of_int d1) h1
                < dateToJulianDay64 (of_int y2) (of_int m2) (of_int d2) h2)"
proof -
  define N1 where "N1 = 365 * (shiftYear y1 m1 + 4716) + (shiftYear y1 m1 + 4716) div 4 +
      monthTerm (shiftMonth m1) + d1"
  define B1 where "B1 = 2 - shiftYear y1 m1 div 100 + shiftYear y1 m1 div 400"
  define N2 where "N2 = 365 * (shiftYear y2 m2 + 4716) + (shiftYear y2 m2 + 4716) div 4 +
      monthTerm (shiftMonth m2) + d2"
  define B2 where "B2 = 2 - shiftYear y2 m2 div 100 + shiftYear y2 m2 div 400"
  note f1 = dateToJulianDay64_form [OF v1 y1, folded N1_def B1_def]
  note f2 = dateToJulianDay64_form [OF v2 y2, folded N2_def B2_def]
  have l1: "N1 + B1 = dayCount (shiftYear y1 m1) + monthTerm (shiftMonth m1) + d1 + 1722521"
    unfolding N1_def B1_def by (rule day_number_link)
  have l2: "N2 + B2 = dayCount (shiftYear y2 m2) + monthTerm (shiftMonth m2) + d2 + 1722521"
    unfolding N2_def B2_def by (rule day_number_link)
  have x1: "dateToJulianDay (of_int y1) (of_int m1) (of_int d1) h1 =
      of_int (N1 + B1) + h1 / 24 - 1524.5"
    unfolding l1 dateToJulianDay_int by simp
  have x2: "dateToJulianDay (of_int y2) (of_int m2) (of_int d2) h2 =
      of_int (N2 + B2) + h2 / 24 - 1524.5"
    unfolding l2 dateToJulianDay_int by simp
  have e1: "\<bar>dateToJulianDay64 (of_int y1) (of_int m1) (of_int d1) h1 -
      dateToJulianDay (of_int y1) (of_int m1) (of_int d1) h1\<bar> \<le> 2 powi (- 23)"
    unfolding f1(1) x1 by (rule julian_sum_error [OF f1(2,3) h1])
  have e2: "\<bar>dateToJulianDay64 (of_int y2) (of_int m2) (of_int d2) h2 -
      dateToJulianDay (of_int y2) (of_int m2) (of_int d2) h2\<bar> \<le> 2 powi (- 23)"
    unfolding f2(1) x2 by (rule julian_sum_error [OF f2(2,3) h2])
  consider (date) "y1 < y2 \<or> (y1 = y2 \<and> (m1 < m2 \<or> (m1 = m2 \<and> d1 < d2)))"
    | (hour) "y1 = y2" "m1 = m2" "d1 = d2" "h1 < h2"
    using lt by (auto simp: civilBefore_def)
  then have weak: "dateToJulianDay64 (of_int y1) (of_int m1) (of_int d1) h1
      \<le> dateToJulianDay64 (of_int y2) (of_int m2) (of_int d2) h2"
  proof cases
    case date
    have "N1 + B1 < N2 + B2"
      unfolding l1 l2 using dayNumber_strict_mono [OF v1 v2 date] by simp
    then have day: "N1 + B1 + 1 \<le> N2 + B2" by simp
    show ?thesis
      unfolding f1(1) f2(1)
      by (rule julian_sum_mono_day [OF f1(2,3) f2(2,3) hour_fraction(2) [OF h1]
            hour_fraction(1) [OF h2] day])
  next
    case hour
    then have "N1 = N2" "B1 = B2" by (simp_all add: N1_def N2_def B1_def B2_def)
    then show ?thesis
      unfolding f1(1) f2(1) using julian_sum_mono_hour [of h1 h2 N2 B2] hour(4) by simp
  qed
  have p: "(2::real) powi (- 23) = 1 / 8388608" by (simp add: power_int_minus)
  have strict: "dateToJulianDay64 (of_int y1) (of_int m1) (of_int d1) h1
      < dateToJulianDay64 (of_int y2) (of_int m2) (of_int d2) h2"
    if "1 / 86400 \<le> dateToJulianDay (of_int y2) (of_int m2) (of_int d2) h2 -
                      dateToJulianDay (of_int y1) (of_int m1) (of_int d1) h1"
    using that e1 e2 unfolding p by linarith
  show ?thesis using weak e1 e2 strict by blast
qed


theorem dateToJulianDay64_monotonic_witness:
  "validDate 2023 12 31 \<and> validDate 2024 1 1 \<and>
   civilBefore (2023, 12, 31, 23.5) (2024, 1, 1, 0) \<and>
   dateToJulianDay 2024 1 1 0 - dateToJulianDay 2023 12 31 23.5 = 1 / 48 \<and>
   dateToJulianDay64 2023 12 31 23.5 < dateToJulianDay64 2024 1 1 0"
proof -
  have v: "validDate 2023 12 31" "validDate 2024 1 1"
    by (simp_all add: validDate_def monthDays_def InLeapYear_def)
  have c: "civilBefore (2023, 12, 31, 23.5) (2024, 1, 1, 0)"
    by (simp add: civilBefore_def)
  have e: "dateToJulianDay 2024 1 1 0 - dateToJulianDay 2023 12 31 23.5 = 1 / 48"
    by (simp add: dateToJulianDay_def)
  have "dateToJulianDay64 2023 12 31 23.5 < dateToJulianDay64 2024 1 1 0"
    using dateToJulianDay64_monotonic [OF v(1) v(2) _ _ _ _ _ _ c] e by simp
  with v c e show ?thesis by simp
qed

end
